theory Spec2Isabelle
  imports Main "HOL-Library.Word"
begin

section \<open>Data model of derecho's View, SubView and the shared state table\<close>

text \<open>
  The embedding follows \<^verbatim>\<open>src/derecho/view.cpp\<close>, the SST declaration
  \<^verbatim>\<open>class DerechoSST\<close> and \<^verbatim>\<open>src/src/core/rpc_manager.cpp\<close>.

  \<^item> \<^verbatim>\<open>node_id_t\<close> is \<^verbatim>\<open>uint32_t\<close>: a 32-bit word, only ever compared.
  \<^item> \<^verbatim>\<open>std::vector<char> failed\<close> is a list of bytes; a byte counts as true when
    it is not zero, as \<^verbatim>\<open>if(failed[n])\<close> reads it.
  \<^item> The \<^verbatim>\<open>int\<close> and \<^verbatim>\<open>int32_t\<close> fields of a View are \<open>int\<close>: the methods
    below only compare them, and a loop variable stays under the bound it is compared
    with. The \<^verbatim>\<open>int\<close> fields of the state table, which \<^verbatim>\<open>merge_changes\<close>
    increments, are 32-bit words read in two's complement (\<open>sint\<close>).
  \<^item> \<^verbatim>\<open>subgroup_id_t\<close> and shard numbers are unsigned and used as vector indices
    only: \<open>nat\<close>.
  \<^item> Reading a \<^verbatim>\<open>std::vector\<close> with \<^verbatim>\<open>operator[]\<close> outside its bounds is
    undefined behaviour in C++; the model stops with the fault \<open>out_of_bounds\<close>
    there, as it does for a row or an element outside the state table.
    \<^verbatim>\<open>vector::at\<close> throws \<^verbatim>\<open>std::out_of_range\<close>, and
    \<^verbatim>\<open>make_subview\<close> throws \<^verbatim>\<open>subgroup_provisioning_exception\<close>.
  \<^item> The state table is read as one snapshot: the rows of other members do not change
    while a method of the View runs.
\<close>

type_synonym node_id_t = "32 word"
type_synonym cchar = "8 word"
type_synonym c_int = "32 word"
type_synonym int64_t = "64 word"
type_synonym ip_addr_t = string
type_synonym ip_and_ports = "ip_addr_t \<times> 16 word \<times> 16 word \<times> 16 word \<times> 16 word"
type_synonym subgroup_id_t = nat
type_synonym subgroup_type_id_t = nat
type_synonym type_index = nat

datatype fault = out_of_bounds | std_out_of_range | subgroup_provisioning_exception
  | division_by_zero

datatype Mode = ORDERED | UNORDERED | RAW

definition index_vec :: "'a list \<Rightarrow> int \<Rightarrow> fault + 'a" where
  "index_vec xs i = (if 0 \<le> i \<and> i < int (length xs) then Inr (xs ! nat i) else Inl out_of_bounds)"

definition vec_at :: "'a list \<Rightarrow> nat \<Rightarrow> fault + 'a" where
  "vec_at xs i = (if i < length xs then Inr (xs ! i) else Inl std_out_of_range)"

subsection \<open>SubView\<close>

record SubView =
  mode :: Mode
  members :: "node_id_t list"
  is_sender :: "int list"
  member_ips_and_ports :: "ip_and_ports list"
  joined :: "node_id_t list"
  departed :: "node_id_t list"
  my_rank :: int

text \<open>
  \<^verbatim>\<open>SubView::SubView(Mode, members, is_sender, member_ips_and_ports)\<close>: the member
  initialiser fills \<^verbatim>\<open>is_sender\<close> with \<^verbatim>\<open>members.size()\<close> ones, and the body
  replaces it by the argument when the argument is not empty. \<^verbatim>\<open>joined\<close> and
  \<^verbatim>\<open>departed\<close> are default-constructed.
\<close>

definition SubView_ctor ::
  "Mode \<Rightarrow> node_id_t list \<Rightarrow> int list \<Rightarrow> ip_and_ports list \<Rightarrow> SubView" where
  "SubView_ctor md mems is_sender_arg ips =
     (let this = \<lparr> mode = md, members = mems,
                    is_sender = replicate (length mems) 1,
                    member_ips_and_ports = ips,
                    joined = [], departed = [], my_rank = - 1 \<rparr>
      in if length is_sender_arg \<noteq> 0 then this\<lparr> is_sender := is_sender_arg \<rparr> else this)"

text \<open>
  \<^verbatim>\<open>SubView::num_senders\<close> counts in a \<^verbatim>\<open>uint32_t\<close>: every increment wraps
  at \<open>2 ^ 32\<close>.
\<close>

fun num_senders_loop :: "int list \<Rightarrow> nat \<Rightarrow> nat" where
  "num_senders_loop [] num = num"
| "num_senders_loop (i # rest) num =
     num_senders_loop rest (if i \<noteq> 0 then (num + 1) mod 2 ^ 32 else num)"

definition num_senders :: "SubView \<Rightarrow> nat" where
  "num_senders sv = num_senders_loop (SubView.is_sender sv) 0"

subsection \<open>View\<close>

record View =
  vid :: int
  members :: "node_id_t list"
  member_ips_and_ports :: "ip_and_ports list"
  failed :: "cchar list"
  num_failed :: int
  joined :: "node_id_t list"
  departed :: "node_id_t list"
  num_members :: int
  my_rank :: int
  next_unassigned_rank :: int
  subgroup_type_order :: "type_index list"
  subgroup_ids_by_type_id :: "subgroup_type_id_t \<rightharpoonup> subgroup_id_t list"
  subgroup_shard_views :: "SubView list list"
  my_subgroups :: "subgroup_id_t \<rightharpoonup> nat"
  node_id_to_rank :: "node_id_t \<rightharpoonup> int"
  i_know_i_am_leader :: bool

text \<open>
  \<^verbatim>\<open>View::rank_of_leader\<close>: the loop over \<^verbatim>\<open>r\<close> from \<open>0\<close> while
  \<^verbatim>\<open>r < num_members\<close>, returning the first \<^verbatim>\<open>r\<close> with \<^verbatim>\<open>!failed[r]\<close>.
\<close>

function rank_of_leader_loop :: "View \<Rightarrow> int \<Rightarrow> fault + int" where
  "rank_of_leader_loop v r =
     (if r < num_members v
      then (case index_vec (failed v) r of
              Inl e \<Rightarrow> Inl e
            | Inr c \<Rightarrow> if c = 0 then Inr r else rank_of_leader_loop v (r + 1))
      else Inr (- 1))"
  by pat_completeness auto
termination
  by (relation "measure (\<lambda>(v, r). nat (num_members v - r))") auto

declare rank_of_leader_loop.simps [simp del]

definition rank_of_leader :: "View \<Rightarrow> fault + int" where
  "rank_of_leader v = rank_of_leader_loop v 0"

definition i_am_leader :: "View \<Rightarrow> fault + bool" where
  "i_am_leader v =
     (case rank_of_leader v of Inl e \<Rightarrow> Inl e | Inr r \<Rightarrow> Inr (r = View.my_rank v))"

text \<open>
  Both constructors fill \<^verbatim>\<open>node_id_to_rank\<close> with the loop
  \<^verbatim>\<open>for(rank = 0; rank < num_members; ++rank) node_id_to_rank[members[rank]] = rank\<close>.
\<close>

function node_id_to_rank_loop ::
  "node_id_t list \<Rightarrow> int \<Rightarrow> int \<Rightarrow> (node_id_t \<rightharpoonup> int) \<Rightarrow> fault + (node_id_t \<rightharpoonup> int)" where
  "node_id_to_rank_loop mems n rank m =
     (if rank < n
      then (case index_vec mems rank of
              Inl e \<Rightarrow> Inl e
            | Inr who \<Rightarrow> node_id_to_rank_loop mems n (rank + 1) (m(who \<mapsto> rank)))
      else Inr m)"
  by pat_completeness auto
termination
  by (relation "measure (\<lambda>(mems, n, rank, m). nat (n - rank))") auto

declare node_id_to_rank_loop.simps [simp del]

text \<open>
  Modelled from the spec: the default member initialiser of
  \<^verbatim>\<open>i_know_i_am_leader\<close> stands in \<^verbatim>\<open>view.h\<close>, which is not among the
  sources; neither constructor assigns the field, and a View that was just built has
  not yet found itself to be the leader.
\<close>

definition i_know_i_am_leader_default :: bool where
  "i_know_i_am_leader_default = False"

text \<open>
  The constructor that takes the deserialized fields (the first \<^verbatim>\<open>View::View\<close> of
  \<^verbatim>\<open>view.cpp\<close>): \<^verbatim>\<open>my_rank\<close> and \<^verbatim>\<open>next_unassigned_rank\<close> are set to
  \<open>0\<close>, \<^verbatim>\<open>subgroup_type_order\<close> is default-constructed.
\<close>

definition View_from_fields ::
  "int \<Rightarrow> node_id_t list \<Rightarrow> ip_and_ports list \<Rightarrow> cchar list \<Rightarrow> int \<Rightarrow> node_id_t list
   \<Rightarrow> node_id_t list \<Rightarrow> int \<Rightarrow> (subgroup_type_id_t \<rightharpoonup> subgroup_id_t list)
   \<Rightarrow> SubView list list \<Rightarrow> (subgroup_id_t \<rightharpoonup> nat) \<Rightarrow> fault + View" where
  "View_from_fields vid_arg mems ips failed_arg num_failed_arg joined_arg departed_arg
       num_members_arg ids_by_type shard_views my_subgroups_arg =
     (case node_id_to_rank_loop mems num_members_arg 0 Map.empty of
        Inl e \<Rightarrow> Inl e
      | Inr m \<Rightarrow> Inr \<lparr> View.vid = vid_arg, members = mems, member_ips_and_ports = ips,
                      failed = failed_arg, num_failed = num_failed_arg,
                      joined = joined_arg, departed = departed_arg,
                      num_members = num_members_arg,
                      my_rank = 0, next_unassigned_rank = 0,
                      subgroup_type_order = [],
                      subgroup_ids_by_type_id = ids_by_type,
                      subgroup_shard_views = shard_views,
                      my_subgroups = my_subgroups_arg,
                      node_id_to_rank = m,
                      i_know_i_am_leader = i_know_i_am_leader_default \<rparr>)"

text \<open>
  The second constructor: \<^verbatim>\<open>num_members\<close> is \<^verbatim>\<open>members.size()\<close> and
  \<^verbatim>\<open>num_failed\<close> counts the nonzero bytes of \<^verbatim>\<open>failed\<close>.
\<close>

fun count_failed :: "cchar list \<Rightarrow> int \<Rightarrow> int" where
  "count_failed [] n = n"
| "count_failed (c # cs) n = count_failed cs (if c \<noteq> 0 then n + 1 else n)"

definition View_ctor ::
  "int \<Rightarrow> node_id_t list \<Rightarrow> ip_and_ports list \<Rightarrow> cchar list \<Rightarrow> node_id_t list
   \<Rightarrow> node_id_t list \<Rightarrow> int \<Rightarrow> int \<Rightarrow> type_index list \<Rightarrow> fault + View" where
  "View_ctor vid_arg mems ips failed_arg joined_arg departed_arg my_rank_arg
       next_unassigned_rank_arg type_order =
     (case node_id_to_rank_loop mems (int (length mems)) 0 Map.empty of
        Inl e \<Rightarrow> Inl e
      | Inr m \<Rightarrow> Inr \<lparr> View.vid = vid_arg, members = mems, member_ips_and_ports = ips,
                      failed = failed_arg, num_failed = count_failed failed_arg 0,
                      joined = joined_arg, departed = departed_arg,
                      num_members = int (length mems),
                      my_rank = my_rank_arg, next_unassigned_rank = next_unassigned_rank_arg,
                      subgroup_type_order = type_order,
                      subgroup_ids_by_type_id = Map.empty,
                      subgroup_shard_views = [],
                      my_subgroups = Map.empty,
                      node_id_to_rank = m,
                      i_know_i_am_leader = i_know_i_am_leader_default \<rparr>)"

text \<open>
  Modelled from the spec: the serialized form of a View. The declaration of the
  serialized fields (\<^verbatim>\<open>DEFAULT_SERIALIZATION_SUPPORT\<close> in \<^verbatim>\<open>view.h\<close>) is not among
  the sources; it carries the arguments of the constructor that deserialization calls,
  in that order.
\<close>

record serialized_View =
  ser_vid :: int
  ser_members :: "node_id_t list"
  ser_member_ips_and_ports :: "ip_and_ports list"
  ser_failed :: "cchar list"
  ser_num_failed :: int
  ser_joined :: "node_id_t list"
  ser_departed :: "node_id_t list"
  ser_num_members :: int
  ser_subgroup_ids_by_type_id :: "subgroup_type_id_t \<rightharpoonup> subgroup_id_t list"
  ser_subgroup_shard_views :: "SubView list list"
  ser_my_subgroups :: "subgroup_id_t \<rightharpoonup> nat"

definition View_serialize :: "View \<Rightarrow> serialized_View" where
  "View_serialize v =
     \<lparr> ser_vid = View.vid v, ser_members = View.members v,
       ser_member_ips_and_ports = View.member_ips_and_ports v,
       ser_failed = failed v, ser_num_failed = num_failed v,
       ser_joined = View.joined v, ser_departed = View.departed v,
       ser_num_members = num_members v,
       ser_subgroup_ids_by_type_id = subgroup_ids_by_type_id v,
       ser_subgroup_shard_views = subgroup_shard_views v,
       ser_my_subgroups = my_subgroups v \<rparr>"

definition View_deserialize :: "serialized_View \<Rightarrow> fault + View" where
  "View_deserialize b =
     View_from_fields (ser_vid b) (ser_members b) (ser_member_ips_and_ports b) (ser_failed b)
       (ser_num_failed b) (ser_joined b) (ser_departed b) (ser_num_members b)
       (ser_subgroup_ids_by_type_id b) (ser_subgroup_shard_views b) (ser_my_subgroups b)"

text \<open>\<^verbatim>\<open>View::rank_of(const node_id_t&)\<close>: a lookup in \<^verbatim>\<open>node_id_to_rank\<close>.\<close>

definition rank_of :: "View \<Rightarrow> node_id_t \<Rightarrow> int" where
  "rank_of v who = (case node_id_to_rank v who of Some r \<Rightarrow> r | None \<Rightarrow> - 1)"

text \<open>
  \<^verbatim>\<open>std::distance(members.begin(), std::find(members.begin(), members.end(), x))\<close>:
  the position of the first occurrence, or the size of the vector.
\<close>

fun find_distance :: "'a list \<Rightarrow> 'a \<Rightarrow> nat" where
  "find_distance [] x = 0"
| "find_distance (y # ys) x = (if y = x then 0 else Suc (find_distance ys x))"

definition default_ip_and_ports :: ip_and_ports where
  "default_ip_and_ports = ([], 0, 0, 0, 0)"

function make_subview_loop ::
  "View \<Rightarrow> node_id_t list \<Rightarrow> nat \<Rightarrow> ip_and_ports list \<Rightarrow> fault + ip_and_ports list" where
  "make_subview_loop v with_members subview_rank subview_ips =
     (if subview_rank < length with_members
      then (if find_distance (View.members v) (with_members ! subview_rank)
                 = length (View.members v)
            then Inl subgroup_provisioning_exception
            else (case index_vec (View.member_ips_and_ports v)
                         (int (find_distance (View.members v) (with_members ! subview_rank))) of
                    Inl e \<Rightarrow> Inl e
                  | Inr entry \<Rightarrow>
                      make_subview_loop v with_members (subview_rank + 1)
                        (subview_ips[subview_rank := entry])))
      else Inr subview_ips)"
  by pat_completeness auto
termination
  by (relation "measure (\<lambda>(v, with_members, subview_rank, subview_ips).
         length with_members - subview_rank)") auto

declare make_subview_loop.simps [simp del]

definition make_subview :: "View \<Rightarrow> node_id_t list \<Rightarrow> Mode \<Rightarrow> int list \<Rightarrow> fault + SubView" where
  "make_subview v with_members md is_sender_arg =
     (case make_subview_loop v with_members 0
             (replicate (length with_members) default_ip_and_ports) of
        Inl e \<Rightarrow> Inl e
      | Inr subview_ips \<Rightarrow> Inr (SubView_ctor md with_members is_sender_arg subview_ips))"

text \<open>
  \<^verbatim>\<open>View::subview_rank_of_shard_leader\<close>: \<^verbatim>\<open>failed\<close> is indexed with the
  \<^verbatim>\<open>int\<close> that \<^verbatim>\<open>rank_of\<close> returns, so a shard member missing from
  \<^verbatim>\<open>node_id_to_rank\<close> reads outside the vector.
\<close>

function shard_leader_loop :: "View \<Rightarrow> SubView \<Rightarrow> nat \<Rightarrow> fault + int" where
  "shard_leader_loop v shard_view rank =
     (if rank < length (SubView.members shard_view)
      then (case index_vec (failed v) (rank_of v (SubView.members shard_view ! rank)) of
              Inl e \<Rightarrow> Inl e
            | Inr c \<Rightarrow> if c = 0 then Inr (int rank)
                       else shard_leader_loop v shard_view (rank + 1))
      else Inr (- 1))"
  by pat_completeness auto
termination
  by (relation "measure (\<lambda>(v, shard_view, rank). length (SubView.members shard_view) - rank)")
    auto

declare shard_leader_loop.simps [simp del]

definition subview_rank_of_shard_leader :: "View \<Rightarrow> subgroup_id_t \<Rightarrow> nat \<Rightarrow> fault + int" where
  "subview_rank_of_shard_leader v subgroup_id shard_index =
     (case vec_at (subgroup_shard_views v) subgroup_id of
        Inl e \<Rightarrow> Inl e
      | Inr shards \<Rightarrow>
          if shard_index \<ge> length shards then Inr (- 1)
          else (case vec_at shards shard_index of
                  Inl e \<Rightarrow> Inl e
                | Inr shard_view \<Rightarrow> shard_leader_loop v shard_view 0))"


text \<open>The member list of one shard of one subgroup.\<close>

abbreviation shard_members :: "View \<Rightarrow> subgroup_id_t \<Rightarrow> nat \<Rightarrow> node_id_t list" where
  "shard_members v subgroup_id shard_index \<equiv>
     SubView.members (subgroup_shard_views v ! subgroup_id ! shard_index)"

subsection \<open>The shared state table\<close>

text \<open>
  One row of \<^verbatim>\<open>DerechoSST\<close> per member, with the fields in the order of the class
  declaration. \<^verbatim>\<open>gmsSST->f[r]\<close> is field \<open>f\<close> of row \<open>r\<close>; \<^verbatim>\<open>changes.size()\<close>
  is the length the constructor gave the \<^verbatim>\<open>changes\<close> column. The counters
  \<^verbatim>\<open>num_changes\<close>, \<^verbatim>\<open>num_committed\<close>, \<^verbatim>\<open>num_acked\<close> and
  \<^verbatim>\<open>num_installed\<close> are \<^verbatim>\<open>SSTField<int>\<close>: 32-bit words, compared as signed
  values.
\<close>

typedecl sst_Message

record DerechoSST_row =
  seq_num :: "c_int list"
  stable_num :: "c_int list"
  delivered_num :: "c_int list"
  persisted_num :: "int64_t list"
  vid :: c_int
  suspected :: "bool list"
  changes :: "node_id_t list"
  joiner_ips :: "32 word list"
  num_changes :: c_int
  num_committed :: c_int
  num_acked :: c_int
  num_installed :: c_int
  num_received :: "c_int list"
  wedged :: bool
  global_min :: "c_int list"
  global_min_ready :: "bool list"
  slots :: "sst_Message list"
  num_received_sst :: "c_int list"
  local_stability_frontier :: "64 word list"

record DerechoSST =
  rows :: "DerechoSST_row list"
  changes_size :: nat

datatype sst_field =
    seq_num_field | stable_num_field | delivered_num_field | persisted_num_field
  | vid_field | suspected_field | changes_field | joiner_ips_field
  | num_changes_field | num_committed_field | num_acked_field | num_installed_field
  | num_received_field | wedged_field | global_min_field | global_min_ready_field
  | slots_field | num_received_sst_field | local_stability_frontier_field

text \<open>The order in which the constructor hands the fields to \<^verbatim>\<open>SSTInit\<close>.\<close>

definition sst_layout :: "sst_field list" where
  "sst_layout =
     [seq_num_field, stable_num_field, delivered_num_field, persisted_num_field,
      vid_field, suspected_field, changes_field, joiner_ips_field,
      num_changes_field, num_committed_field, num_acked_field, num_installed_field,
      num_received_field, wedged_field, global_min_field, global_min_ready_field,
      slots_field, num_received_sst_field, local_stability_frontier_field]"

text \<open>
  The two shapes of \<^verbatim>\<open>gmsSST->put(offset, size)\<close> that \<^verbatim>\<open>view.cpp\<close> uses:
  \<^verbatim>\<open>put(a.get_base() - getBaseAddress(), b.get_base() - a.get_base())\<close> publishes the
  row from the start of field \<open>a\<close> up to the start of field \<open>b\<close>, and
  \<^verbatim>\<open>put(a.get_base() - getBaseAddress(), sizeof(a[0]))\<close>, for a scalar field \<open>a\<close>,
  publishes the bytes of that one field.
\<close>

datatype put_call = put_range sst_field sst_field | put_field sst_field

fun put_covers :: "put_call \<Rightarrow> sst_field list" where
  "put_covers (put_range a b) = takeWhile (\<lambda>f. f \<noteq> b) (dropWhile (\<lambda>f. f \<noteq> a) sst_layout)"
| "put_covers (put_field a) = [a]"

text \<open>
  What a View reaches through its shared pointers \<^verbatim>\<open>gmsSST\<close> and
  \<^verbatim>\<open>multicast_group\<close>. Each call into the multicast group and each \<^verbatim>\<open>put\<close> is
  logged with the table as it stood when the call was made.

  Modelled from the spec: \<^verbatim>\<open>MulticastGroup::wedge\<close> is not among the sources; the
  spec's wedge has the engine refuse new sends, which the flag
  \<open>multicast_group_wedged\<close> records.
\<close>

datatype call = multicast_group_wedge DerechoSST | sst_put put_call DerechoSST

record group_state =
  gmsSST :: DerechoSST
  multicast_group_wedged :: bool
  calls :: "call list"

text \<open>
  \<^verbatim>\<open>gmssst::set(array, value, length)\<close>: a \<^verbatim>\<open>memcpy\<close> of the first \<open>length\<close>
  elements.
\<close>

definition memcpy_elems :: "'a list \<Rightarrow> 'a list \<Rightarrow> nat \<Rightarrow> fault + 'a list" where
  "memcpy_elems dst src len =
     (if len \<le> length src \<and> len \<le> length dst then Inr (take len src @ drop len dst)
      else Inl out_of_bounds)"

text \<open>An \<^verbatim>\<open>int\<close> converted to \<^verbatim>\<open>size_t\<close>, as in \<^verbatim>\<open>c % gmsSST->changes.size()\<close>.\<close>

definition size_t_of_int :: "int \<Rightarrow> nat" where
  "size_t_of_int c = nat (c mod 2 ^ 64)"

text \<open>
  Modelled from the spec: \<^verbatim>\<open>gmssst::increment(volatile int& member)\<close> is declared
  beside the table and defined outside the sources; the spec has \<^verbatim>\<open>merge_changes\<close>
  append a change ``incrementing \<^verbatim>\<open>num_changes\<close>''. The argument is a 32-bit
  \<^verbatim>\<open>int\<close>: adding one to \<^verbatim>\<open>INT_MAX\<close> is undefined behaviour in C++, and the
  compiled increment wraps to \<^verbatim>\<open>INT_MIN\<close>, as the word addition here does.
\<close>

definition increment :: "c_int \<Rightarrow> c_int" where
  "increment member = member + 1"

subsection \<open>View::i_am_new_leader\<close>

definition suspected_at :: "DerechoSST \<Rightarrow> int \<Rightarrow> int \<Rightarrow> fault + bool" where
  "suspected_at s row n =
     (case index_vec (rows s) row of Inl e \<Rightarrow> Inl e | Inr r \<Rightarrow> index_vec (suspected r) n)"

text \<open>
  The inner loop over \<^verbatim>\<open>row\<close>; the result \<open>True\<close> stands for the
  \<^verbatim>\<open>return false\<close> in its body.
\<close>

function new_leader_rows :: "View \<Rightarrow> DerechoSST \<Rightarrow> int \<Rightarrow> int \<Rightarrow> fault + bool" where
  "new_leader_rows v s n row =
     (if row < View.my_rank v
      then (case index_vec (failed v) n of
              Inl e \<Rightarrow> Inl e
            | Inr f \<Rightarrow>
                if f = 0
                then (case suspected_at s row n of
                        Inl e \<Rightarrow> Inl e
                      | Inr susp \<Rightarrow> if \<not> susp then Inr True
                                    else new_leader_rows v s n (row + 1))
                else new_leader_rows v s n (row + 1))
      else Inr False)"
  by pat_completeness auto
termination
  by (relation "measure (\<lambda>(v, s, n, row). nat (View.my_rank v - row))") auto

declare new_leader_rows.simps [simp del]

function new_leader_ranks :: "View \<Rightarrow> DerechoSST \<Rightarrow> int \<Rightarrow> fault + bool" where
  "new_leader_ranks v s n =
     (if n < View.my_rank v
      then (case new_leader_rows v s n 0 of
              Inl e \<Rightarrow> Inl e
            | Inr returned \<Rightarrow> if returned then Inr True else new_leader_ranks v s (n + 1))
      else Inr False)"
  by pat_completeness auto
termination
  by (relation "measure (\<lambda>(v, s, n). nat (View.my_rank v - n))") auto

declare new_leader_ranks.simps [simp del]

definition i_am_new_leader :: "View \<Rightarrow> DerechoSST \<Rightarrow> fault + (bool \<times> View)" where
  "i_am_new_leader v s =
     (if i_know_i_am_leader v then Inr (False, v)
      else (case new_leader_ranks v s 0 of
              Inl e \<Rightarrow> Inl e
            | Inr returned \<Rightarrow>
                if returned then Inr (False, v)
                else Inr (True, v\<lparr> i_know_i_am_leader := True \<rparr>)))"

text \<open>
  A sequence of calls on the same View object. Between calls the rest of the program
  may have changed the \<^verbatim>\<open>failed\<close> vector and the state table, so each call comes
  with the values both have at that call; nothing but \<^verbatim>\<open>i_am_new_leader\<close> itself
  writes \<^verbatim>\<open>i_know_i_am_leader\<close>. A call that runs into undefined behaviour ends
  the sequence.
\<close>

fun i_am_new_leader_calls ::
  "View \<Rightarrow> (cchar list \<times> DerechoSST) list \<Rightarrow> (fault + bool) list" where
  "i_am_new_leader_calls v [] = []"
| "i_am_new_leader_calls v ((failed_now, s) # later) =
     (case i_am_new_leader (v\<lparr> failed := failed_now \<rparr>) s of
        Inl e \<Rightarrow> [Inl e]
      | Inr (answer, v') \<Rightarrow> Inr answer # i_am_new_leader_calls v' later)"

subsection \<open>View::merge_changes\<close>

text \<open>
  The body of the first loop, for one row \<open>n\<close>: adopt the longer change log and its
  \<^verbatim>\<open>num_changes\<close>, then the larger \<^verbatim>\<open>num_committed\<close>.
\<close>

definition merge_row :: "View \<Rightarrow> DerechoSST \<Rightarrow> int \<Rightarrow> fault + DerechoSST" where
  "merge_row v s n =
     (case index_vec (rows s) (View.my_rank v) of
        Inl e \<Rightarrow> Inl e
      | Inr mine \<Rightarrow>
         (case index_vec (rows s) n of
            Inl e \<Rightarrow> Inl e
          | Inr other \<Rightarrow>
             (case (if sint (num_changes mine) < sint (num_changes other)
                    then (case memcpy_elems (changes mine) (changes other) (changes_size s) of
                            Inl e \<Rightarrow> Inl e
                          | Inr copied \<Rightarrow>
                              Inr (mine\<lparr> changes := copied, num_changes := num_changes other \<rparr>))
                    else Inr mine) of
                Inl e \<Rightarrow> Inl e
              | Inr mine1 \<Rightarrow>
                  Inr (s\<lparr> rows := (rows s)[nat (View.my_rank v) :=
                         (if sint (num_committed mine1) < sint (num_committed other)
                          then mine1\<lparr> num_committed := num_committed other \<rparr>
                          else mine1)] \<rparr>))))"

function merge_loop :: "View \<Rightarrow> DerechoSST \<Rightarrow> int \<Rightarrow> fault + DerechoSST" where
  "merge_loop v s n =
     (if n < num_members v
      then (case merge_row v s n of
              Inl e \<Rightarrow> Inl e
            | Inr s' \<Rightarrow> merge_loop v s' (n + 1))
      else Inr s)"
  by pat_completeness auto
termination
  by (relation "measure (\<lambda>(v, s, n). nat (num_members v - n))") auto

declare merge_loop.simps [simp del]

text \<open>
  The scan \<^verbatim>\<open>for(c = num_committed[myRank]; c < num_changes[myRank] && !found; c++)\<close>
  for \<^verbatim>\<open>members[n]\<close> in the local change log.
\<close>

function already_listed_loop ::
  "View \<Rightarrow> DerechoSST \<Rightarrow> int \<Rightarrow> int \<Rightarrow> bool \<Rightarrow> fault + bool" where
  "already_listed_loop v s n c found =
     (case index_vec (rows s) (View.my_rank v) of
        Inl e \<Rightarrow> Inl e
      | Inr mine \<Rightarrow>
          if c < sint (num_changes mine) \<and> \<not> found
          then (if changes_size s = 0 then Inl division_by_zero
                else (case index_vec (changes mine)
                             (int (size_t_of_int c mod changes_size s)) of
                        Inl e \<Rightarrow> Inl e
                      | Inr listed \<Rightarrow>
                         (case index_vec (View.members v) n of
                            Inl e \<Rightarrow> Inl e
                          | Inr who \<Rightarrow>
                              already_listed_loop v s n (c + 1)
                                (if listed = who then True else found))))
          else Inr found)"
  by pat_completeness auto
termination
  by (relation "measure (\<lambda>(v, s, n, c, found).
         nat (sint (num_changes (rows s ! nat (View.my_rank v))) - c))")
    (auto simp: index_vec_def split: if_splits)

declare already_listed_loop.simps [simp del]

text \<open>
  The body of the second loop, for one member \<open>n\<close>. The variable \<^verbatim>\<open>found\<close> is
  declared before the loop and is not reset inside it, so its value is carried from
  one member to the next.
\<close>

definition propose_failed ::
  "View \<Rightarrow> DerechoSST \<Rightarrow> int \<Rightarrow> bool \<Rightarrow> fault + (DerechoSST \<times> bool)" where
  "propose_failed v s n found =
     (case index_vec (failed v) n of
        Inl e \<Rightarrow> Inl e
      | Inr f \<Rightarrow>
         (case (if f \<noteq> 0
                then (case index_vec (rows s) (View.my_rank v) of
                        Inl e \<Rightarrow> Inl e
                      | Inr mine \<Rightarrow>
                          already_listed_loop v s n (sint (num_committed mine)) found)
                else Inr True) of
            Inl e \<Rightarrow> Inl e
          | Inr found1 \<Rightarrow>
              if \<not> found1
              then (case index_vec (rows s) (View.my_rank v) of
                      Inl e \<Rightarrow> Inl e
                    | Inr mine \<Rightarrow>
                        if changes_size s = 0 then Inl division_by_zero
                        else (case index_vec (View.members v) n of
                                Inl e \<Rightarrow> Inl e
                              | Inr who \<Rightarrow>
                                  if size_t_of_int (sint (num_changes mine)) mod changes_size s
                                       < length (changes mine)
                                  then Inr (s\<lparr> rows := (rows s)[nat (View.my_rank v) :=
                                              mine\<lparr> changes := (changes mine)
                                                       [size_t_of_int (sint (num_changes mine))
                                                          mod changes_size s := who],
                                                    num_changes := increment (num_changes mine) \<rparr>] \<rparr>,
                                            found1)
                                  else Inl out_of_bounds))
              else Inr (s, found1)))"

function propose_loop :: "View \<Rightarrow> DerechoSST \<Rightarrow> int \<Rightarrow> bool \<Rightarrow> fault + DerechoSST" where
  "propose_loop v s n found =
     (if n < num_members v
      then (case propose_failed v s n found of
              Inl e \<Rightarrow> Inl e
            | Inr (s', found') \<Rightarrow> propose_loop v s' (n + 1) found')
      else Inr s)"
  by pat_completeness auto
termination
  by (relation "measure (\<lambda>(v, s, n, found). nat (num_members v - n))") auto

declare propose_loop.simps [simp del]

definition merge_changes :: "View \<Rightarrow> group_state \<Rightarrow> fault + group_state" where
  "merge_changes v g =
     (case merge_loop v (gmsSST g) 0 of
        Inl e \<Rightarrow> Inl e
      | Inr merged \<Rightarrow>
         (case propose_loop v merged 0 False of
            Inl e \<Rightarrow> Inl e
          | Inr proposed \<Rightarrow>
              Inr (g\<lparr> gmsSST := proposed,
                      calls := calls g @
                        [sst_put (put_range changes_field joiner_ips_field) proposed,
                         sst_put (put_range joiner_ips_field num_changes_field) proposed,
                         sst_put (put_range num_changes_field num_committed_field) proposed,
                         sst_put (put_range num_committed_field num_acked_field) proposed] \<rparr>)))"

subsection \<open>View::wedge\<close>

text \<open>
  The three statements of \<^verbatim>\<open>View::wedge\<close> in their order: the call into the
  multicast group, the store to \<^verbatim>\<open>wedged[my_rank]\<close>, the \<^verbatim>\<open>put\<close> of the
  \<^verbatim>\<open>wedged\<close> field.
\<close>

definition wedge :: "View \<Rightarrow> group_state \<Rightarrow> fault + group_state" where
  "wedge v g =
     (let g1 = g\<lparr> multicast_group_wedged := True,
                   calls := calls g @ [multicast_group_wedge (gmsSST g)] \<rparr>
      in (case index_vec (rows (gmsSST g1)) (View.my_rank v) of
            Inl e \<Rightarrow> Inl e
          | Inr mine \<Rightarrow>
              (let g2 = g1\<lparr> gmsSST := (gmsSST g1)\<lparr> rows := (rows (gmsSST g1))
                                 [nat (View.my_rank v) := mine\<lparr> wedged := True \<rparr>] \<rparr> \<rparr>
               in Inr (g2\<lparr> calls := calls g2 @
                               [sst_put (put_field wedged_field) (gmsSST g2)] \<rparr>))))"

text \<open>
  The state table fits the View: the local rank names a row, every rank has a row and
  an entry in \<^verbatim>\<open>failed\<close> and \<^verbatim>\<open>members\<close>, and every row's \<^verbatim>\<open>changes\<close> array
  has the \<^verbatim>\<open>changes.size()\<close> elements (at least one) the table was built with.
\<close>

definition table_fits :: "View \<Rightarrow> DerechoSST \<Rightarrow> bool" where
  "table_fits v s \<longleftrightarrow>
     0 \<le> View.my_rank v \<and> View.my_rank v < int (length (rows s))
     \<and> num_members v \<le> int (length (rows s))
     \<and> num_members v \<le> int (length (failed v))
     \<and> num_members v \<le> int (length (View.members v))
     \<and> 0 < changes_size s
     \<and> (\<forall>r \<in> set (rows s). length (changes r) = changes_size s)"

text \<open>
  The counters leave room: in every row \<^verbatim>\<open>num_changes\<close> can still grow by one for
  each member without passing \<^verbatim>\<open>INT_MAX\<close>, so no increment of
  \<^verbatim>\<open>merge_changes\<close> overflows.
\<close>

definition counters_leave_room :: "View \<Rightarrow> DerechoSST \<Rightarrow> bool" where
  "counters_leave_room v s \<longleftrightarrow>
     (\<forall>r \<in> set (rows s). sint (num_changes r) + num_members v < 2 ^ 31)"

text \<open>
  How the table after a step of \<^verbatim>\<open>merge_changes\<close> relates to the table before it:
  it still fits the View, only the local row differs, and the local counters, read as
  signed values, have not gone down.
\<close>

definition local_row_advanced :: "View \<Rightarrow> DerechoSST \<Rightarrow> DerechoSST \<Rightarrow> bool" where
  "local_row_advanced v s s' \<longleftrightarrow>
     table_fits v s'
     \<and> length (rows s') = length (rows s)
     \<and> (\<forall>k < length (rows s). k \<noteq> nat (View.my_rank v) \<longrightarrow> rows s' ! k = rows s ! k)
     \<and> sint (num_changes (rows s ! nat (View.my_rank v)))
           \<le> sint (num_changes (rows s' ! nat (View.my_rank v)))
     \<and> sint (num_committed (rows s ! nat (View.my_rank v)))
           \<le> sint (num_committed (rows s' ! nat (View.my_rank v)))"

subsection \<open>RPCManager::new_view_callback\<close>

text \<open>
  The two collections of pending results the manager keeps, each a \<^verbatim>\<open>std::map\<close> from
  subgroup id to a sequence, held here as a list of entries in iteration order, and the
  member list its P2P connections were last built for. The type \<open>'p\<close> is the pending
  result (\<^verbatim>\<open>PendingBase\<close>); the class is not among the sources, so the two methods the
  callback calls on it, \<^verbatim>\<open>all_responded\<close> and
  \<^verbatim>\<open>set_exception_for_removed_node\<close>, are arguments of the model.
\<close>

record 'p RPCManager =
  connections_members :: "node_id_t list"
  pending_results_to_fulfill :: "(subgroup_id_t \<times> 'p list) list"
  fulfilled_pending_results :: "(subgroup_id_t \<times> 'p list) list"

text \<open>\<^verbatim>\<open>for(auto removed_id : ...departed)\<close>, calling the setter for each id in order.\<close>

fun removed_ids_loop :: "(node_id_t \<Rightarrow> 'p \<Rightarrow> 'p) \<Rightarrow> node_id_t list \<Rightarrow> 'p \<Rightarrow> 'p" where
  "removed_ids_loop set_exception_for_removed_node [] p = p"
| "removed_ids_loop set_exception_for_removed_node (removed_id # rest) p =
     removed_ids_loop set_exception_for_removed_node rest
       (set_exception_for_removed_node removed_id p)"

text \<open>
  The loop over \<^verbatim>\<open>shard_num\<close>; its condition and body index
  \<^verbatim>\<open>new_view.subgroup_shard_views[subgroup_id]\<close> with \<^verbatim>\<open>operator[]\<close>.
\<close>

function shard_num_loop ::
  "(node_id_t \<Rightarrow> 'p \<Rightarrow> 'p) \<Rightarrow> View \<Rightarrow> subgroup_id_t \<Rightarrow> nat \<Rightarrow> 'p \<Rightarrow> fault + 'p" where
  "shard_num_loop set_exception_for_removed_node new_view subgroup_id shard_num p =
     (case index_vec (subgroup_shard_views new_view) (int subgroup_id) of
        Inl e \<Rightarrow> Inl e
      | Inr shards \<Rightarrow>
          if shard_num < length shards
          then shard_num_loop set_exception_for_removed_node new_view subgroup_id (shard_num + 1)
                 (removed_ids_loop set_exception_for_removed_node
                    (SubView.departed (shards ! shard_num)) p)
          else Inr p)"
  by pat_completeness auto
termination
  by (relation "measure (\<lambda>(set_exception_for_removed_node, new_view, subgroup_id, shard_num, p).
         length (subgroup_shard_views new_view ! subgroup_id) - shard_num)")
    (auto simp: index_vec_def split: if_splits)

declare shard_num_loop.simps [simp del]

text \<open>
  The loop over one subgroup's list: an entry that has all responded is erased, any
  other entry is updated in place and kept.
\<close>

fun pending_results_loop ::
  "('p \<Rightarrow> bool) \<Rightarrow> (node_id_t \<Rightarrow> 'p \<Rightarrow> 'p) \<Rightarrow> View \<Rightarrow> subgroup_id_t \<Rightarrow> 'p list
   \<Rightarrow> fault + 'p list" where
  "pending_results_loop all_responded set_exception_for_removed_node new_view subgroup_id [] = Inr []"
| "pending_results_loop all_responded set_exception_for_removed_node new_view subgroup_id (p # rest) =
     (if all_responded p
      then pending_results_loop all_responded set_exception_for_removed_node new_view subgroup_id rest
      else (case shard_num_loop set_exception_for_removed_node new_view subgroup_id 0 p of
              Inl e \<Rightarrow> Inl e
            | Inr p' \<Rightarrow>
               (case pending_results_loop all_responded set_exception_for_removed_node
                       new_view subgroup_id rest of
                  Inl e \<Rightarrow> Inl e
                | Inr rest' \<Rightarrow> Inr (p' # rest'))))"

fun fulfilled_pending_results_loop ::
  "('p \<Rightarrow> bool) \<Rightarrow> (node_id_t \<Rightarrow> 'p \<Rightarrow> 'p) \<Rightarrow> View \<Rightarrow> (subgroup_id_t \<times> 'p list) list
   \<Rightarrow> fault + (subgroup_id_t \<times> 'p list) list" where
  "fulfilled_pending_results_loop all_responded set_exception_for_removed_node new_view [] = Inr []"
| "fulfilled_pending_results_loop all_responded set_exception_for_removed_node new_view
       ((subgroup_id, pending) # others) =
     (case pending_results_loop all_responded set_exception_for_removed_node
             new_view subgroup_id pending of
        Inl e \<Rightarrow> Inl e
      | Inr pending' \<Rightarrow>
         (case fulfilled_pending_results_loop all_responded set_exception_for_removed_node
                 new_view others of
            Inl e \<Rightarrow> Inl e
          | Inr others' \<Rightarrow> Inr ((subgroup_id, pending') # others')))"

definition new_view_callback ::
  "('p \<Rightarrow> bool) \<Rightarrow> (node_id_t \<Rightarrow> 'p \<Rightarrow> 'p) \<Rightarrow> 'p RPCManager \<Rightarrow> View \<Rightarrow> fault + 'p RPCManager" where
  "new_view_callback all_responded set_exception_for_removed_node mgr new_view =
     (case fulfilled_pending_results_loop all_responded set_exception_for_removed_node new_view
             (fulfilled_pending_results mgr) of
        Inl e \<Rightarrow> Inl e
      | Inr fulfilled' \<Rightarrow>
          Inr (mgr\<lparr> connections_members := View.members new_view,
                    fulfilled_pending_results := fulfilled' \<rparr>))"

text \<open>
  Modelled from the spec: a pending result, for the concrete runs below.
  \<^verbatim>\<open>PendingResults\<close> is not among the sources. The spec has a pending result completed
  with \<open>node_removed\<close> for a target that left the view, after which no further reply is
  expected from it; the callback's own comment says the setter does nothing for a node
  that was never in the shard the result corresponds to; \<^verbatim>\<open>rpc_message_handler\<close>
  fixes the targets with \<^verbatim>\<open>fulfill_map\<close> once the message is self-received.
\<close>

datatype reply = value_reply | node_removed

record PendingResults =
  map_fulfilled :: bool
  dest_nodes :: "node_id_t list"
  responded_nodes :: "node_id_t list"
  replies :: "node_id_t \<rightharpoonup> reply"

definition awaiting :: "PendingResults \<Rightarrow> node_id_t \<Rightarrow> bool" where
  "awaiting p n \<longleftrightarrow> n \<in> set (dest_nodes p) \<and> n \<notin> set (responded_nodes p)"

definition completed_with_node_removed :: "PendingResults \<Rightarrow> node_id_t \<Rightarrow> bool" where
  "completed_with_node_removed p n \<longleftrightarrow> replies p n = Some node_removed"

definition PendingResults_all_responded :: "PendingResults \<Rightarrow> bool" where
  "PendingResults_all_responded p \<longleftrightarrow>
     map_fulfilled p \<and> set (dest_nodes p) \<subseteq> set (responded_nodes p)"

definition PendingResults_set_exception_for_removed_node ::
  "node_id_t \<Rightarrow> PendingResults \<Rightarrow> PendingResults" where
  "PendingResults_set_exception_for_removed_node removed_nid p =
     (if awaiting p removed_nid
      then p\<lparr> responded_nodes := removed_nid # responded_nodes p,
              replies := (replies p)(removed_nid \<mapsto> node_removed) \<rparr>
      else p)"

text \<open>
  The setter applied for every id in the \<^verbatim>\<open>departed\<close> list of every shard of a subgroup,
  shard by shard: what the two inner loops of the callback do to one pending result.
\<close>

definition set_exception_for_departed ::
  "(node_id_t \<Rightarrow> 'p \<Rightarrow> 'p) \<Rightarrow> SubView list \<Rightarrow> 'p \<Rightarrow> 'p" where
  "set_exception_for_departed se shards p = fold se (concat (map SubView.departed shards)) p"

section \<open>Concrete inputs\<close>

definition example_view :: View where
  "example_view = \<lparr> View.vid = 3, members = [10, 11, 12], member_ips_and_ports = [],
     failed = [1, 0, 0], num_failed = 1, joined = [], departed = [], num_members = 3,
     my_rank = 1, next_unassigned_rank = 0, subgroup_type_order = [],
     subgroup_ids_by_type_id = Map.empty, subgroup_shard_views = [],
     my_subgroups = Map.empty, node_id_to_rank = Map.empty, i_know_i_am_leader = False \<rparr>"

definition example_sharded_view :: View where
  "example_sharded_view = \<lparr> View.vid = 3, members = [10, 11, 12], member_ips_and_ports = [],
     failed = [1, 0, 0], num_failed = 1, joined = [], departed = [], num_members = 3,
     my_rank = 1, next_unassigned_rank = 3, subgroup_type_order = [],
     subgroup_ids_by_type_id = Map.empty,
     subgroup_shard_views = [[SubView_ctor ORDERED [10, 12] [] []]],
     my_subgroups = Map.empty,
     node_id_to_rank = [10 \<mapsto> 0, 11 \<mapsto> 1, 12 \<mapsto> 2],
     i_know_i_am_leader = False \<rparr>"

definition example_addressed_view :: View where
  "example_addressed_view = \<lparr> View.vid = 3, members = [10, 11, 12],
     member_ips_and_ports = [(''10.0.0.1'', 1, 2, 3, 4), (''10.0.0.2'', 5, 6, 7, 8),
                             (''10.0.0.3'', 9, 10, 11, 12)],
     failed = [1, 0, 0], num_failed = 1, joined = [], departed = [], num_members = 3,
     my_rank = 1, next_unassigned_rank = 0, subgroup_type_order = [],
     subgroup_ids_by_type_id = Map.empty, subgroup_shard_views = [],
     my_subgroups = Map.empty, node_id_to_rank = [10 \<mapsto> 0, 11 \<mapsto> 1, 12 \<mapsto> 2],
     i_know_i_am_leader = False \<rparr>"

definition example_row :: DerechoSST_row where
  "example_row = \<lparr> seq_num = [0], stable_num = [0], delivered_num = [0], persisted_num = [0],
     vid = 3, suspected = [False, False, False],
     changes = replicate 103 0, joiner_ips = replicate 103 0,
     num_changes = 0, num_committed = 0, num_acked = 0, num_installed = 0,
     num_received = [0, 0, 0], wedged = False, global_min = [0, 0, 0],
     global_min_ready = [False], slots = [], num_received_sst = [0, 0, 0],
     local_stability_frontier = [0] \<rparr>"

definition example_sst :: DerechoSST where
  "example_sst = \<lparr> rows = [example_row, example_row, example_row], changes_size = 103 \<rparr>"

definition example_sst_suspecting :: DerechoSST where
  "example_sst_suspecting =
     \<lparr> rows = [example_row\<lparr> suspected := [True, False, False] \<rparr>, example_row, example_row],
       changes_size = 103 \<rparr>"

definition example_follower_view :: View where
  "example_follower_view = \<lparr> View.vid = 3, members = [10, 11, 12], member_ips_and_ports = [],
     failed = [0, 0, 0], num_failed = 0, joined = [], departed = [], num_members = 3,
     my_rank = 1, next_unassigned_rank = 0, subgroup_type_order = [],
     subgroup_ids_by_type_id = Map.empty, subgroup_shard_views = [],
     my_subgroups = Map.empty, node_id_to_rank = [10 \<mapsto> 0, 11 \<mapsto> 1, 12 \<mapsto> 2],
     i_know_i_am_leader = False \<rparr>"

definition example_group :: group_state where
  "example_group = \<lparr> gmsSST = example_sst, multicast_group_wedged = False, calls = [] \<rparr>"

definition example_row_ahead :: DerechoSST_row where
  "example_row_ahead =
     example_row\<lparr> changes := [12, 13] @ replicate 101 0, num_changes := 2, num_committed := 1 \<rparr>"

definition example_group_behind :: group_state where
  "example_group_behind =
     \<lparr> gmsSST = \<lparr> rows = [example_row_ahead, example_row, example_row], changes_size = 103 \<rparr>,
       multicast_group_wedged = False, calls = [] \<rparr>"

definition example_view_late_failure :: View where
  "example_view_late_failure = \<lparr> View.vid = 3, members = [10, 11, 12], member_ips_and_ports = [],
     failed = [0, 1, 0], num_failed = 1, joined = [], departed = [], num_members = 3,
     my_rank = 0, next_unassigned_rank = 0, subgroup_type_order = [],
     subgroup_ids_by_type_id = Map.empty, subgroup_shard_views = [],
     my_subgroups = Map.empty, node_id_to_rank = [10 \<mapsto> 0, 11 \<mapsto> 1, 12 \<mapsto> 2],
     i_know_i_am_leader = False \<rparr>"

definition example_new_view :: View where
  "example_new_view = \<lparr> View.vid = 4, members = [10, 11], member_ips_and_ports = [],
     failed = [0, 0], num_failed = 0, joined = [], departed = [12], num_members = 2,
     my_rank = 0, next_unassigned_rank = 2, subgroup_type_order = [],
     subgroup_ids_by_type_id = Map.empty,
     subgroup_shard_views = [[(SubView_ctor ORDERED [10, 11] [] [])\<lparr> SubView.departed := [12, 15] \<rparr>]],
     my_subgroups = [0 \<mapsto> 0],
     node_id_to_rank = [10 \<mapsto> 0, 11 \<mapsto> 1],
     i_know_i_am_leader = False \<rparr>"

definition example_pending_unsent :: PendingResults where
  "example_pending_unsent =
     \<lparr> map_fulfilled = False, dest_nodes = [], responded_nodes = [], replies = Map.empty \<rparr>"

definition example_pending_done :: PendingResults where
  "example_pending_done =
     \<lparr> map_fulfilled = True, dest_nodes = [10], responded_nodes = [10],
       replies = [10 \<mapsto> value_reply] \<rparr>"

definition example_pending_waiting :: PendingResults where
  "example_pending_waiting =
     \<lparr> map_fulfilled = True, dest_nodes = [10, 11, 12], responded_nodes = [10],
       replies = [10 \<mapsto> value_reply] \<rparr>"

definition example_rpc_manager :: "PendingResults RPCManager" where
  "example_rpc_manager =
     \<lparr> connections_members = [10, 11, 12],
       pending_results_to_fulfill = [(0, [example_pending_unsent])],
       fulfilled_pending_results = [(0, [example_pending_done, example_pending_waiting])] \<rparr>"

section \<open>SubView construction\<close>

lemma num_senders_loop_count:
  "num < 2 ^ 32 \<Longrightarrow>
   num_senders_loop xs num = (num + length (filter (\<lambda>i. i \<noteq> 0) xs)) mod 2 ^ 32"
proof (induction xs arbitrary: num)
  case Nil
  then show ?case by simp
next
  case (Cons i rest)
  show ?case
  proof (cases "i = 0")
    case True
    then show ?thesis using Cons.IH [OF Cons.prems] by simp
  next
    case False
    have "num_senders_loop (i # rest) num = num_senders_loop rest ((num + 1) mod 2 ^ 32)"
      using False by simp
    also have "\<dots> = ((num + 1) mod 2 ^ 32 + length (filter (\<lambda>i. i \<noteq> 0) rest)) mod 2 ^ 32"
      by (rule Cons.IH) simp
    also have "\<dots> = (num + length (filter (\<lambda>i. i \<noteq> 0) (i # rest))) mod 2 ^ 32"
      using False by (simp add: mod_simps)
    finally show ?thesis .
  qed
qed

lemma num_senders_count:
  "num_senders sv = length (filter (\<lambda>i. i \<noteq> 0) (SubView.is_sender sv)) mod 2 ^ 32"
  using num_senders_loop_count [of 0 "SubView.is_sender sv"]
  by (simp add: num_senders_def)

text \<open>
  Claim C9. A SubView constructed with an empty \<^verbatim>\<open>is_sender\<close> argument has every
  member a sender: \<^verbatim>\<open>is_sender[i]\<close> is nonzero at every rank and
  \<^verbatim>\<open>num_senders()\<close> is the number of members (a \<^verbatim>\<open>uint32_t\<close>, so for fewer
  than \<open>2 ^ 32\<close> members); a non-empty argument is stored exactly as given.
\<close>

theorem SubView_ctor_is_sender:
  "(is_sender_arg = [] \<longrightarrow>
      length (SubView.is_sender (SubView_ctor md mems is_sender_arg ips)) = length mems
      \<and> (\<forall>i < length mems. SubView.is_sender (SubView_ctor md mems is_sender_arg ips) ! i \<noteq> 0)
      \<and> (length mems < 2 ^ 32 \<longrightarrow>
           num_senders (SubView_ctor md mems is_sender_arg ips) = length mems))
   \<and> (is_sender_arg \<noteq> [] \<longrightarrow>
        SubView.is_sender (SubView_ctor md mems is_sender_arg ips) = is_sender_arg)"
  by (simp add: SubView_ctor_def num_senders_count)

theorem SubView_ctor_is_sender_witness:
  "SubView.is_sender (SubView_ctor ORDERED [7, 8, 9] [] []) ! 2 \<noteq> 0
   \<and> num_senders (SubView_ctor ORDERED [7, 8, 9] [] []) = 3
   \<and> SubView.is_sender (SubView_ctor ORDERED [7, 8, 9] [1, 0, 1] []) = [1, 0, 1]"
  using SubView_ctor_is_sender [of "[]" ORDERED "[7, 8, 9]" "[]"]
    SubView_ctor_is_sender [of "[1, 0, 1]" ORDERED "[7, 8, 9]" "[]"]
  by simp

section \<open>Leader election\<close>

lemma rank_of_leader_loop_spec:
  assumes "num_members v \<le> int (length (failed v))" "0 \<le> r0"
    and "\<forall>q. 0 \<le> q \<and> q < r0 \<longrightarrow> failed v ! nat q \<noteq> 0"
  shows "\<exists>r. rank_of_leader_loop v r0 = Inr r \<and>
           ((0 \<le> r \<and> r < num_members v \<and> failed v ! nat r = 0
               \<and> (\<forall>q. 0 \<le> q \<and> q < r \<longrightarrow> failed v ! nat q \<noteq> 0))
            \<or> (r = - 1 \<and> (\<forall>q. 0 \<le> q \<and> q < num_members v \<longrightarrow> failed v ! nat q \<noteq> 0)))"
  using assms
proof (induction v r0 rule: rank_of_leader_loop.induct)
  case (1 v r)
  show ?case
  proof (cases "r < num_members v")
    case False
    then have "rank_of_leader_loop v r = Inr (- 1)"
      by (simp add: rank_of_leader_loop.simps)
    moreover have "\<forall>q. 0 \<le> q \<and> q < num_members v \<longrightarrow> failed v ! nat q \<noteq> 0"
      using False "1.prems"(3) by auto
    ultimately show ?thesis by simp
  next
    case True
    then have ix: "index_vec (failed v) r = Inr (failed v ! nat r)"
      using "1.prems" by (simp add: index_vec_def)
    show ?thesis
    proof (cases "failed v ! nat r = 0")
      case z: True
      then have "rank_of_leader_loop v r = Inr r"
        using True ix by (simp add: rank_of_leader_loop.simps)
      then show ?thesis using True z "1.prems" by simp
    next
      case nz: False
      have step: "rank_of_leader_loop v r = rank_of_leader_loop v (r + 1)"
        using True ix nz by (simp add: rank_of_leader_loop.simps [of v r])
      have "\<forall>q. 0 \<le> q \<and> q < r + 1 \<longrightarrow> failed v ! nat q \<noteq> 0"
      proof (intro allI impI)
        fix q assume "0 \<le> q \<and> q < r + 1"
        then have "q < r \<or> q = r" by auto
        then show "failed v ! nat q \<noteq> 0"
          using nz "1.prems"(3) \<open>0 \<le> q \<and> q < r + 1\<close> by auto
      qed
      then show ?thesis
        using "1.IH" [OF True ix nz "1.prems"(1)] "1.prems"(2) step by simp
    qed
  qed
qed

text \<open>
  Claim C4. For a View whose \<^verbatim>\<open>failed\<close> vector covers all \<^verbatim>\<open>num_members\<close>
  ranks, \<^verbatim>\<open>rank_of_leader\<close> returns the smallest rank whose \<^verbatim>\<open>failed\<close> entry is
  zero, and \<open>-1\<close> when every entry is set; \<^verbatim>\<open>i_am_leader\<close> is true exactly when
  that value equals \<^verbatim>\<open>my_rank\<close>, so a node with a rank of its own (\<open>0 \<le> my_rank\<close>)
  is the leader iff it is the lowest-ranked member that has not failed.
\<close>

theorem rank_of_leader_lowest_live:
  assumes "num_members v \<le> int (length (failed v))"
  shows "(\<exists>r. rank_of_leader v = Inr r
            \<and> i_am_leader v = Inr (r = View.my_rank v)
            \<and> ((0 \<le> r \<and> r < num_members v \<and> failed v ! nat r = 0
                  \<and> (\<forall>q. 0 \<le> q \<and> q < r \<longrightarrow> failed v ! nat q \<noteq> 0))
                \<or> (r = - 1 \<and> (\<forall>q. 0 \<le> q \<and> q < num_members v \<longrightarrow> failed v ! nat q \<noteq> 0))))
         \<and> (0 \<le> View.my_rank v \<longrightarrow>
              (i_am_leader v = Inr True \<longleftrightarrow>
                 View.my_rank v < num_members v \<and> failed v ! nat (View.my_rank v) = 0
                 \<and> (\<forall>q. 0 \<le> q \<and> q < View.my_rank v \<longrightarrow> failed v ! nat q \<noteq> 0)))"
proof -
  have "\<exists>r. rank_of_leader_loop v 0 = Inr r \<and>
           ((0 \<le> r \<and> r < num_members v \<and> failed v ! nat r = 0
               \<and> (\<forall>q. 0 \<le> q \<and> q < r \<longrightarrow> failed v ! nat q \<noteq> 0))
            \<or> (r = - 1 \<and> (\<forall>q. 0 \<le> q \<and> q < num_members v \<longrightarrow> failed v ! nat q \<noteq> 0)))"
    by (rule rank_of_leader_loop_spec) (use assms in auto)
  then obtain r where r: "rank_of_leader_loop v 0 = Inr r"
    and c: "(0 \<le> r \<and> r < num_members v \<and> failed v ! nat r = 0
               \<and> (\<forall>q. 0 \<le> q \<and> q < r \<longrightarrow> failed v ! nat q \<noteq> 0))
            \<or> (r = - 1 \<and> (\<forall>q. 0 \<le> q \<and> q < num_members v \<longrightarrow> failed v ! nat q \<noteq> 0))"
    by blast
  have l: "i_am_leader v = Inr (r = View.my_rank v)"
    using r by (simp add: i_am_leader_def rank_of_leader_def)
  have first: "\<exists>r. rank_of_leader v = Inr r
            \<and> i_am_leader v = Inr (r = View.my_rank v)
            \<and> ((0 \<le> r \<and> r < num_members v \<and> failed v ! nat r = 0
                  \<and> (\<forall>q. 0 \<le> q \<and> q < r \<longrightarrow> failed v ! nat q \<noteq> 0))
                \<or> (r = - 1 \<and> (\<forall>q. 0 \<le> q \<and> q < num_members v \<longrightarrow> failed v ! nat q \<noteq> 0)))"
    using r c l by (auto simp: rank_of_leader_def)
  have second: "i_am_leader v = Inr True \<longleftrightarrow>
                 View.my_rank v < num_members v \<and> failed v ! nat (View.my_rank v) = 0
                 \<and> (\<forall>q. 0 \<le> q \<and> q < View.my_rank v \<longrightarrow> failed v ! nat q \<noteq> 0)"
    if nonneg: "0 \<le> View.my_rank v"
  proof
    assume "i_am_leader v = Inr True"
    then have "r = View.my_rank v" using l by simp
    then show "View.my_rank v < num_members v \<and> failed v ! nat (View.my_rank v) = 0
                 \<and> (\<forall>q. 0 \<le> q \<and> q < View.my_rank v \<longrightarrow> failed v ! nat q \<noteq> 0)"
      using c nonneg by auto
  next
    assume rhs: "View.my_rank v < num_members v \<and> failed v ! nat (View.my_rank v) = 0
                 \<and> (\<forall>q. 0 \<le> q \<and> q < View.my_rank v \<longrightarrow> failed v ! nat q \<noteq> 0)"
    have "r \<noteq> - 1" using c rhs nonneg by auto
    then have live: "0 \<le> r" "r < num_members v" "failed v ! nat r = 0"
      and low: "\<forall>q. 0 \<le> q \<and> q < r \<longrightarrow> failed v ! nat q \<noteq> 0"
      using c by auto
    have "\<not> r < View.my_rank v" using rhs live by auto
    moreover have "\<not> View.my_rank v < r" using rhs low nonneg by auto
    ultimately have "r = View.my_rank v" by simp
    then show "i_am_leader v = Inr True" using l by simp
  qed
  show ?thesis using first second by blast
qed

theorem rank_of_leader_lowest_live_witness:
  "num_members example_view \<le> int (length (failed example_view))
   \<and> rank_of_leader example_view = Inr 1 \<and> i_am_leader example_view = Inr True"
  using rank_of_leader_lowest_live [of example_view]
  by (simp add: example_view_def rank_of_leader_def i_am_leader_def
      rank_of_leader_loop.simps index_vec_def)

section \<open>Shard leaders\<close>

lemma node_id_to_rank_loop_distinct:
  assumes "n \<le> int (length mems)" "0 \<le> rank" "distinct mems"
    and "\<forall>i. 0 \<le> i \<and> i < rank \<longrightarrow> m (mems ! nat i) = Some i"
  shows "\<exists>m'. node_id_to_rank_loop mems n rank m = Inr m'
           \<and> (\<forall>i. 0 \<le> i \<and> i < max n rank \<longrightarrow> m' (mems ! nat i) = Some i)"
  using assms
proof (induction mems n rank m rule: node_id_to_rank_loop.induct)
  case (1 mems n rank m)
  show ?case
  proof (cases "rank < n")
    case False
    then have "node_id_to_rank_loop mems n rank m = Inr m"
      by (simp add: node_id_to_rank_loop.simps)
    moreover have "max n rank = rank" using False by simp
    ultimately show ?thesis using "1.prems"(4) by simp
  next
    case True
    have ix: "index_vec mems rank = Inr (mems ! nat rank)"
      using True "1.prems" by (simp add: index_vec_def)
    have step: "node_id_to_rank_loop mems n rank m
                  = node_id_to_rank_loop mems n (rank + 1) (m(mems ! nat rank \<mapsto> rank))"
      using True ix by (simp add: node_id_to_rank_loop.simps [of mems n rank m])
    have inv: "\<forall>i. 0 \<le> i \<and> i < rank + 1 \<longrightarrow> (m(mems ! nat rank \<mapsto> rank)) (mems ! nat i) = Some i"
    proof (intro allI impI)
      fix i assume i: "0 \<le> i \<and> i < rank + 1"
      show "(m(mems ! nat rank \<mapsto> rank)) (mems ! nat i) = Some i"
      proof (cases "i = rank")
        case True
        then show ?thesis by simp
      next
        case False
        then have lt: "i < rank" using i by simp
        have "nat i < length mems" "nat rank < length mems" "nat i \<noteq> nat rank"
          using lt i True "1.prems"(1,2) by auto
        then have "mems ! nat i \<noteq> mems ! nat rank"
          using "1.prems"(3) by (simp add: nth_eq_iff_index_eq)
        then show ?thesis using "1.prems"(4) lt i by simp
      qed
    qed
    have "\<exists>m'. node_id_to_rank_loop mems n (rank + 1) (m(mems ! nat rank \<mapsto> rank)) = Inr m'
            \<and> (\<forall>i. 0 \<le> i \<and> i < max n (rank + 1) \<longrightarrow> m' (mems ! nat i) = Some i)"
    proof -
      have nn: "0 \<le> rank + 1" using "1.prems"(2) by simp
      show ?thesis by (rule "1.IH" [OF True ix "1.prems"(1) nn "1.prems"(3) inv])
    qed
    moreover have "max n (rank + 1) = max n rank" using True by simp
    ultimately show ?thesis using step by simp
  qed
qed

lemma View_ctor_builds:
  assumes "View_ctor vid_arg mems ips failed_arg joined_arg departed_arg my_rank_arg
             next_unassigned_rank_arg type_order = Inr v"
  shows "node_id_to_rank_loop (View.members v) (num_members v) 0 Map.empty
           = Inr (node_id_to_rank v)"
    and "num_members v = int (length (View.members v))"
  using assms by (auto simp: View_ctor_def split: sum.splits)

lemma rank_of_built:
  assumes "node_id_to_rank_loop (View.members v) (num_members v) 0 Map.empty = Inr (node_id_to_rank v)"
    and "num_members v = int (length (View.members v))"
    and "distinct (View.members v)"
    and "i < length (View.members v)"
  shows "rank_of v (View.members v ! i) = int i"
proof -
  have "\<exists>m'. node_id_to_rank_loop (View.members v) (num_members v) 0 Map.empty = Inr m'
           \<and> (\<forall>i. 0 \<le> i \<and> i < max (num_members v) 0 \<longrightarrow> m' (View.members v ! nat i) = Some i)"
    by (rule node_id_to_rank_loop_distinct) (use assms in auto)
  then have "\<forall>i. 0 \<le> i \<and> i < max (num_members v) 0 \<longrightarrow> node_id_to_rank v (View.members v ! nat i) = Some i"
    using assms(1) by auto
  then have "0 \<le> int i \<and> int i < max (num_members v) 0
               \<longrightarrow> node_id_to_rank v (View.members v ! nat (int i)) = Some (int i)"
    by (rule spec)
  then have "node_id_to_rank v (View.members v ! nat (int i)) = Some (int i)"
    using assms(2,4) by simp
  then show ?thesis by (simp add: rank_of_def)
qed

lemma shard_leader_loop_spec:
  assumes rk: "\<forall>k < length (SubView.members sh).
                 0 \<le> rank_of v (SubView.members sh ! k)
                 \<and> rank_of v (SubView.members sh ! k) < int (length (failed v))"
    and low: "\<forall>q < r0. failed v ! nat (rank_of v (SubView.members sh ! q)) \<noteq> 0"
  shows "\<exists>r. shard_leader_loop v sh r0 = Inr r \<and>
           ((0 \<le> r \<and> nat r < length (SubView.members sh)
               \<and> failed v ! nat (rank_of v (SubView.members sh ! nat r)) = 0
               \<and> (\<forall>q < nat r. failed v ! nat (rank_of v (SubView.members sh ! q)) \<noteq> 0))
            \<or> (r = - 1 \<and> (\<forall>q < length (SubView.members sh).
                   failed v ! nat (rank_of v (SubView.members sh ! q)) \<noteq> 0)))"
  using assms
proof (induction v sh r0 rule: shard_leader_loop.induct)
  case (1 v sh rank)
  show ?case
  proof (cases "rank < length (SubView.members sh)")
    case False
    then have "shard_leader_loop v sh rank = Inr (- 1)"
      by (simp add: shard_leader_loop.simps)
    moreover have "\<forall>q < length (SubView.members sh).
                   failed v ! nat (rank_of v (SubView.members sh ! q)) \<noteq> 0"
      using False "1.prems"(2) by auto
    ultimately show ?thesis by simp
  next
    case True
    have ix: "index_vec (failed v) (rank_of v (SubView.members sh ! rank))
                = Inr (failed v ! nat (rank_of v (SubView.members sh ! rank)))"
      using True "1.prems"(1) by (simp add: index_vec_def)
    show ?thesis
    proof (cases "failed v ! nat (rank_of v (SubView.members sh ! rank)) = 0")
      case z: True
      then have "shard_leader_loop v sh rank = Inr (int rank)"
        using True ix by (simp add: shard_leader_loop.simps)
      then show ?thesis using True z "1.prems"(2) by simp
    next
      case nz: False
      have step: "shard_leader_loop v sh rank = shard_leader_loop v sh (rank + 1)"
        using True ix nz by (simp add: shard_leader_loop.simps [of v sh rank])
      have "\<forall>q < rank + 1. failed v ! nat (rank_of v (SubView.members sh ! q)) \<noteq> 0"
        using nz "1.prems"(2) by (auto simp: less_Suc_eq)
      then show ?thesis
        using "1.IH" [OF True ix nz "1.prems"(1)] step by simp
    qed
  qed
qed


lemma failed_at_rank_of:
  assumes "node_id_to_rank_loop (View.members v) (num_members v) 0 Map.empty = Inr (node_id_to_rank v)"
    and "num_members v = int (length (View.members v))"
    and "distinct (View.members v)"
    and "who \<in> set (View.members v)"
  shows "0 \<le> rank_of v who \<and> rank_of v who < int (length (View.members v))
         \<and> (failed v ! nat (rank_of v who) = 0 \<longleftrightarrow>
              (\<exists>i < length (View.members v). View.members v ! i = who \<and> failed v ! i = 0))
         \<and> (failed v ! nat (rank_of v who) \<noteq> 0 \<longleftrightarrow>
              (\<forall>i < length (View.members v). View.members v ! i = who \<longrightarrow> failed v ! i \<noteq> 0))"
proof -
  obtain j where j: "j < length (View.members v)" "View.members v ! j = who"
    using assms(4) by (auto simp: in_set_conv_nth)
  have r: "rank_of v who = int j"
    using rank_of_built [OF assms(1,2,3) j(1)] j(2) by simp
  have uniq: "i = j" if "i < length (View.members v)" "View.members v ! i = who" for i
    using that j assms(3) by (metis nth_eq_iff_index_eq)
  have zero: "failed v ! nat (rank_of v who) = 0 \<longleftrightarrow>
              (\<exists>i < length (View.members v). View.members v ! i = who \<and> failed v ! i = 0)"
  proof
    assume "failed v ! nat (rank_of v who) = 0"
    then have "failed v ! j = 0" using r by simp
    then show "\<exists>i < length (View.members v). View.members v ! i = who \<and> failed v ! i = 0"
      using j by blast
  next
    assume "\<exists>i < length (View.members v). View.members v ! i = who \<and> failed v ! i = 0"
    then obtain i where "i < length (View.members v)" "View.members v ! i = who" "failed v ! i = 0"
      by blast
    then have "failed v ! j = 0" using uniq by blast
    then show "failed v ! nat (rank_of v who) = 0" using r by simp
  qed
  have nonzero: "failed v ! nat (rank_of v who) \<noteq> 0 \<longleftrightarrow>
              (\<forall>i < length (View.members v). View.members v ! i = who \<longrightarrow> failed v ! i \<noteq> 0)"
  proof
    assume "failed v ! nat (rank_of v who) \<noteq> 0"
    then have "failed v ! j \<noteq> 0" using r by simp
    then show "\<forall>i < length (View.members v). View.members v ! i = who \<longrightarrow> failed v ! i \<noteq> 0"
      using uniq by blast
  next
    assume "\<forall>i < length (View.members v). View.members v ! i = who \<longrightarrow> failed v ! i \<noteq> 0"
    then have "failed v ! j \<noteq> 0" using j by blast
    then show "failed v ! nat (rank_of v who) \<noteq> 0" using r by simp
  qed
  have "0 \<le> rank_of v who \<and> rank_of v who < int (length (View.members v))"
    using r j(1) by simp
  then show ?thesis using zero nonzero by blast
qed

text \<open>
  Claim C5. Take a View as its constructor builds it (\<^verbatim>\<open>node_id_to_rank\<close> filled from
  \<^verbatim>\<open>members\<close>, \<^verbatim>\<open>failed\<close> parallel to \<^verbatim>\<open>members\<close>, no node listed twice)
  whose shard members all occur in \<^verbatim>\<open>members\<close>. For an existing subgroup,
  \<^verbatim>\<open>subview_rank_of_shard_leader\<close> returns \<open>-1\<close> when the shard index is out of
  range; otherwise it returns the smallest rank within the shard whose member is not
  marked failed in the View, and \<open>-1\<close> when every member of the shard is marked failed.
\<close>

theorem subview_rank_of_shard_leader_lowest_live:
  assumes built: "node_id_to_rank_loop (View.members v) (num_members v) 0 Map.empty
                    = Inr (node_id_to_rank v)"
    and size: "num_members v = int (length (View.members v))"
    and flen: "length (failed v) = length (View.members v)"
    and dist: "distinct (View.members v)"
    and contained: "\<forall>shards \<in> set (subgroup_shard_views v). \<forall>sh \<in> set shards.
                      set (SubView.members sh) \<subseteq> set (View.members v)"
    and sg: "subgroup_id < length (subgroup_shard_views v)"
  shows "(length (subgroup_shard_views v ! subgroup_id) \<le> shard_index \<longrightarrow>
            subview_rank_of_shard_leader v subgroup_id shard_index = Inr (- 1))
       \<and> (shard_index < length (subgroup_shard_views v ! subgroup_id) \<longrightarrow>
            (\<exists>r. subview_rank_of_shard_leader v subgroup_id shard_index = Inr r \<and>
               ((0 \<le> r \<and> nat r < length (shard_members v subgroup_id shard_index)
                   \<and> (\<exists>i < length (View.members v).
                         View.members v ! i = shard_members v subgroup_id shard_index ! nat r
                         \<and> failed v ! i = 0)
                   \<and> (\<forall>q < nat r. \<forall>i < length (View.members v).
                         View.members v ! i = shard_members v subgroup_id shard_index ! q
                         \<longrightarrow> failed v ! i \<noteq> 0))
                \<or> (r = - 1
                   \<and> (\<forall>q < length (shard_members v subgroup_id shard_index).
                        \<forall>i < length (View.members v).
                          View.members v ! i = shard_members v subgroup_id shard_index ! q
                          \<longrightarrow> failed v ! i \<noteq> 0)))))"
proof (intro conjI impI)
  assume "length (subgroup_shard_views v ! subgroup_id) \<le> shard_index"
  then show "subview_rank_of_shard_leader v subgroup_id shard_index = Inr (- 1)"
    using sg by (simp add: subview_rank_of_shard_leader_def vec_at_def)
next
  assume si: "shard_index < length (subgroup_shard_views v ! subgroup_id)"
  define sh where "sh = subgroup_shard_views v ! subgroup_id ! shard_index"
  have call: "subview_rank_of_shard_leader v subgroup_id shard_index = shard_leader_loop v sh 0"
    using sg si by (simp add: subview_rank_of_shard_leader_def vec_at_def sh_def)
  have "subgroup_shard_views v ! subgroup_id \<in> set (subgroup_shard_views v)"
    using sg by simp
  moreover have "sh \<in> set (subgroup_shard_views v ! subgroup_id)"
    using si by (simp add: sh_def)
  ultimately have sub: "set (SubView.members sh) \<subseteq> set (View.members v)"
    using contained by blast
  have mem: "SubView.members sh ! k \<in> set (View.members v)"
    if "k < length (SubView.members sh)" for k
    using sub that by (meson nth_mem subsetD)
  note at = failed_at_rank_of [OF built size dist mem]
  have rk: "\<forall>k < length (SubView.members sh).
                 0 \<le> rank_of v (SubView.members sh ! k)
                 \<and> rank_of v (SubView.members sh ! k) < int (length (failed v))"
    using at flen by simp
  have "\<exists>r. shard_leader_loop v sh 0 = Inr r \<and>
           ((0 \<le> r \<and> nat r < length (SubView.members sh)
               \<and> failed v ! nat (rank_of v (SubView.members sh ! nat r)) = 0
               \<and> (\<forall>q < nat r. failed v ! nat (rank_of v (SubView.members sh ! q)) \<noteq> 0))
            \<or> (r = - 1 \<and> (\<forall>q < length (SubView.members sh).
                   failed v ! nat (rank_of v (SubView.members sh ! q)) \<noteq> 0)))"
    by (rule shard_leader_loop_spec [OF rk]) simp
  then obtain r where r: "shard_leader_loop v sh 0 = Inr r"
    and c: "(0 \<le> r \<and> nat r < length (SubView.members sh)
               \<and> failed v ! nat (rank_of v (SubView.members sh ! nat r)) = 0
               \<and> (\<forall>q < nat r. failed v ! nat (rank_of v (SubView.members sh ! q)) \<noteq> 0))
            \<or> (r = - 1 \<and> (\<forall>q < length (SubView.members sh).
                   failed v ! nat (rank_of v (SubView.members sh ! q)) \<noteq> 0))"
    by blast
  from c have "(0 \<le> r \<and> nat r < length (SubView.members sh)
                   \<and> (\<exists>i < length (View.members v).
                         View.members v ! i = SubView.members sh ! nat r \<and> failed v ! i = 0)
                   \<and> (\<forall>q < nat r. \<forall>i < length (View.members v).
                         View.members v ! i = SubView.members sh ! q \<longrightarrow> failed v ! i \<noteq> 0))
                \<or> (r = - 1
                   \<and> (\<forall>q < length (SubView.members sh).
                        \<forall>i < length (View.members v).
                          View.members v ! i = SubView.members sh ! q \<longrightarrow> failed v ! i \<noteq> 0))"
  proof (elim disjE conjE)
    assume a: "0 \<le> r" "nat r < length (SubView.members sh)"
      "failed v ! nat (rank_of v (SubView.members sh ! nat r)) = 0"
      "\<forall>q < nat r. failed v ! nat (rank_of v (SubView.members sh ! q)) \<noteq> 0"
    have "\<exists>i < length (View.members v).
            View.members v ! i = SubView.members sh ! nat r \<and> failed v ! i = 0"
      using at [OF a(2)] a(3) by blast
    moreover have "\<forall>i < length (View.members v).
            View.members v ! i = SubView.members sh ! q \<longrightarrow> failed v ! i \<noteq> 0"
      if "q < nat r" for q
    proof -
      have "q < length (SubView.members sh)" using that a(2) by simp
      from at [OF this] a(4) that show ?thesis by blast
    qed
    ultimately show ?thesis using a(1,2) by blast
  next
    assume b: "r = - 1" "\<forall>q < length (SubView.members sh).
                   failed v ! nat (rank_of v (SubView.members sh ! q)) \<noteq> 0"
    have "\<forall>i < length (View.members v).
            View.members v ! i = SubView.members sh ! q \<longrightarrow> failed v ! i \<noteq> 0"
      if "q < length (SubView.members sh)" for q
      using at [OF that] b(2) that by blast
    then show ?thesis using b(1) by blast
  qed
  then show "\<exists>r. subview_rank_of_shard_leader v subgroup_id shard_index = Inr r \<and>
               ((0 \<le> r \<and> nat r < length (shard_members v subgroup_id shard_index)
                   \<and> (\<exists>i < length (View.members v).
                         View.members v ! i = shard_members v subgroup_id shard_index ! nat r
                         \<and> failed v ! i = 0)
                   \<and> (\<forall>q < nat r. \<forall>i < length (View.members v).
                         View.members v ! i = shard_members v subgroup_id shard_index ! q
                         \<longrightarrow> failed v ! i \<noteq> 0))
                \<or> (r = - 1
                   \<and> (\<forall>q < length (shard_members v subgroup_id shard_index).
                        \<forall>i < length (View.members v).
                          View.members v ! i = shard_members v subgroup_id shard_index ! q
                          \<longrightarrow> failed v ! i \<noteq> 0)))"
    using call r unfolding sh_def by simp
qed


theorem subview_rank_of_shard_leader_lowest_live_witness:
  "distinct (View.members example_sharded_view)
   \<and> length (failed example_sharded_view) = length (View.members example_sharded_view)
   \<and> subview_rank_of_shard_leader example_sharded_view 0 0 = Inr 1
   \<and> subview_rank_of_shard_leader example_sharded_view 0 1 = Inr (- 1)"
proof -
  have built: "node_id_to_rank_loop (View.members example_sharded_view)
                 (num_members example_sharded_view) 0 Map.empty
               = Inr (node_id_to_rank example_sharded_view)"
    by (simp add: example_sharded_view_def node_id_to_rank_loop.simps index_vec_def)
  have size: "num_members example_sharded_view = int (length (View.members example_sharded_view))"
    by (simp add: example_sharded_view_def)
  have flen: "length (failed example_sharded_view) = length (View.members example_sharded_view)"
    by (simp add: example_sharded_view_def)
  have dist: "distinct (View.members example_sharded_view)"
    by (simp add: example_sharded_view_def)
  have contained: "\<forall>shards \<in> set (subgroup_shard_views example_sharded_view). \<forall>sh \<in> set shards.
                      set (SubView.members sh) \<subseteq> set (View.members example_sharded_view)"
    by (simp add: example_sharded_view_def SubView_ctor_def)
  have sg: "0 < length (subgroup_shard_views example_sharded_view)"
    by (simp add: example_sharded_view_def)
  note t = subview_rank_of_shard_leader_lowest_live [OF built size flen dist contained sg]
  have "subview_rank_of_shard_leader example_sharded_view 0 0 = Inr 1"
    using t [of 0]
    by (simp add: example_sharded_view_def subview_rank_of_shard_leader_def vec_at_def
        shard_leader_loop.simps index_vec_def rank_of_def SubView_ctor_def)
  moreover have "subview_rank_of_shard_leader example_sharded_view 0 1 = Inr (- 1)"
    using t [of 1] by (simp add: example_sharded_view_def)
  ultimately show ?thesis using flen dist by simp
qed

section \<open>Building a SubView from a View\<close>

lemma find_distance_le: "find_distance xs x \<le> length xs"
  by (induction xs) auto

lemma find_distance_missing: "find_distance xs x = length xs \<longleftrightarrow> x \<notin> set xs"
proof (induction xs)
  case Nil
  show ?case by simp
next
  case (Cons y ys)
  have "find_distance ys x \<le> length ys" by (rule find_distance_le)
  then show ?case using Cons.IH by auto
qed

lemma find_distance_first:
  "x \<in> set xs \<Longrightarrow>
   find_distance xs x < length xs \<and> xs ! find_distance xs x = x
   \<and> (\<forall>j < find_distance xs x. xs ! j \<noteq> x)"
proof (induction xs)
  case Nil
  then show ?case by simp
next
  case (Cons y ys)
  show ?case
  proof (cases "y = x")
    case True
    then show ?thesis by simp
  next
    case False
    then have "x \<in> set ys" using Cons.prems by simp
    from Cons.IH [OF this] False show ?thesis
      by (auto simp: nth_Cons split: nat.splits)
  qed
qed

lemma find_distance_unique:
  assumes "i < length xs" "xs ! i = x" "\<forall>j < i. xs ! j \<noteq> x"
  shows "find_distance xs x = i"
proof -
  have "x \<in> set xs" using assms(1,2) by auto
  from find_distance_first [OF this]
  have a: "find_distance xs x < length xs" "xs ! find_distance xs x = x"
    "\<forall>j < find_distance xs x. xs ! j \<noteq> x" by auto
  have "\<not> find_distance xs x < i" using assms(3) a(2) by auto
  moreover have "\<not> i < find_distance xs x" using a(3) assms(2) by auto
  ultimately show ?thesis by simp
qed

lemma make_subview_loop_returns:
  assumes "length (View.members v) \<le> length (View.member_ips_and_ports v)"
    and "length acc = length wm"
    and "\<forall>j. k \<le> j \<and> j < length wm \<longrightarrow> wm ! j \<in> set (View.members v)"
  shows "\<exists>acc'. make_subview_loop v wm k acc = Inr acc' \<and> length acc' = length wm
           \<and> (\<forall>j < k. acc' ! j = acc ! j)
           \<and> (\<forall>j. k \<le> j \<and> j < length wm \<longrightarrow>
                 acc' ! j = View.member_ips_and_ports v ! find_distance (View.members v) (wm ! j))"
  using assms
proof (induction v wm k acc rule: make_subview_loop.induct)
  case (1 v wm k acc)
  show ?case
  proof (cases "k < length wm")
    case False
    then have "make_subview_loop v wm k acc = Inr acc"
      by (simp add: make_subview_loop.simps)
    then show ?thesis using False "1.prems"(2) by auto
  next
    case True
    define pos where "pos = find_distance (View.members v) (wm ! k)"
    have "wm ! k \<in> set (View.members v)" using True "1.prems"(3) by simp
    then have found: "pos \<noteq> length (View.members v)" and lt: "pos < length (View.members v)"
      using find_distance_missing [of "View.members v" "wm ! k"]
        find_distance_first [of "wm ! k" "View.members v"] by (auto simp: pos_def)
    have ix: "index_vec (View.member_ips_and_ports v) (int pos)
                = Inr (View.member_ips_and_ports v ! pos)"
      using lt "1.prems"(1) by (simp add: index_vec_def)
    define acc1 where "acc1 = acc[k := View.member_ips_and_ports v ! pos]"
    have step: "make_subview_loop v wm k acc = make_subview_loop v wm (k + 1) acc1"
      using True found ix
      by (simp add: make_subview_loop.simps [of v wm k acc] pos_def [symmetric] acc1_def)
    have len1: "length acc1 = length wm" using "1.prems"(2) by (simp add: acc1_def)
    have rest: "\<forall>j. k + 1 \<le> j \<and> j < length wm \<longrightarrow> wm ! j \<in> set (View.members v)"
      using "1.prems"(3) by simp
    have "\<exists>acc'. make_subview_loop v wm (k + 1) acc1 = Inr acc' \<and> length acc' = length wm
           \<and> (\<forall>j < k + 1. acc' ! j = acc1 ! j)
           \<and> (\<forall>j. k + 1 \<le> j \<and> j < length wm \<longrightarrow>
                 acc' ! j = View.member_ips_and_ports v ! find_distance (View.members v) (wm ! j))"
      using "1.IH" [OF True found [unfolded pos_def] ix [unfolded pos_def] "1.prems"(1)
          len1 [unfolded acc1_def pos_def] rest]
      by (simp add: acc1_def pos_def)
    then obtain acc' where r: "make_subview_loop v wm (k + 1) acc1 = Inr acc'"
      and l: "length acc' = length wm"
      and before: "\<forall>j < k + 1. acc' ! j = acc1 ! j"
      and after: "\<forall>j. k + 1 \<le> j \<and> j < length wm \<longrightarrow>
                 acc' ! j = View.member_ips_and_ports v ! find_distance (View.members v) (wm ! j)"
      by blast
    have b: "\<forall>j < k. acc' ! j = acc ! j"
      using before by (simp add: acc1_def)
    have "acc' ! k = acc1 ! k" using before by simp
    then have atk: "acc' ! k = View.member_ips_and_ports v ! find_distance (View.members v) (wm ! k)"
      using True "1.prems"(2) by (simp add: acc1_def pos_def)
    have a: "\<forall>j. k \<le> j \<and> j < length wm \<longrightarrow>
                 acc' ! j = View.member_ips_and_ports v ! find_distance (View.members v) (wm ! j)"
    proof (intro allI impI)
      fix j assume j: "k \<le> j \<and> j < length wm"
      show "acc' ! j = View.member_ips_and_ports v ! find_distance (View.members v) (wm ! j)"
      proof (cases "j = k")
        case True
        then show ?thesis using atk by simp
      next
        case False
        then have "k + 1 \<le> j \<and> j < length wm" using j by simp
        then show ?thesis using after by blast
      qed
    qed
    show ?thesis using step r l b a by simp
  qed
qed

lemma make_subview_loop_throws:
  assumes "length (View.members v) \<le> length (View.member_ips_and_ports v)"
    and "\<exists>j. k \<le> j \<and> j < length wm \<and> wm ! j \<notin> set (View.members v)"
  shows "make_subview_loop v wm k acc = Inl subgroup_provisioning_exception"
  using assms
proof (induction v wm k acc rule: make_subview_loop.induct)
  case (1 v wm k acc)
  from "1.prems"(2) obtain j where j: "k \<le> j" "j < length wm" "wm ! j \<notin> set (View.members v)"
    by blast
  then have True: "k < length wm" by simp
  define pos where "pos = find_distance (View.members v) (wm ! k)"
  show ?case
  proof (cases "wm ! k \<in> set (View.members v)")
    case False
    then have "pos = length (View.members v)"
      using find_distance_missing [of "View.members v" "wm ! k"] by (simp add: pos_def)
    then show ?thesis
      using True by (simp add: make_subview_loop.simps [of v wm k acc] pos_def)
  next
    case mem: True
    then have found: "pos \<noteq> length (View.members v)" and lt: "pos < length (View.members v)"
      using find_distance_missing [of "View.members v" "wm ! k"]
        find_distance_first [of "wm ! k" "View.members v"] by (auto simp: pos_def)
    have ix: "index_vec (View.member_ips_and_ports v) (int pos)
                = Inr (View.member_ips_and_ports v ! pos)"
      using lt "1.prems"(1) by (simp add: index_vec_def)
    have step: "make_subview_loop v wm k acc
                  = make_subview_loop v wm (k + 1) (acc[k := View.member_ips_and_ports v ! pos])"
      using True found ix
      by (simp add: make_subview_loop.simps [of v wm k acc] pos_def [symmetric])
    have "j \<noteq> k" using j(3) mem by auto
    then have "\<exists>j. k + 1 \<le> j \<and> j < length wm \<and> wm ! j \<notin> set (View.members v)"
      using j by (intro exI [of _ j]) simp
    from "1.IH" [OF True found [unfolded pos_def] ix [unfolded pos_def] "1.prems"(1) this]
    show ?thesis using step by (simp add: pos_def)
  qed
qed


text \<open>
  Claim C6. For a View whose address vector covers its members,
  \<^verbatim>\<open>make_subview\<close> throws \<^verbatim>\<open>subgroup_provisioning_exception\<close> if and only if
  some id of \<^verbatim>\<open>with_members\<close> does not occur in \<^verbatim>\<open>members\<close>; otherwise it
  returns a SubView whose members are \<^verbatim>\<open>with_members\<close> and whose address entry at
  each subview rank is the View's entry at the position where \<^verbatim>\<open>std::find\<close> finds
  that node (its first occurrence). The method is \<^verbatim>\<open>const\<close>: the model is a function
  of the View and yields no new View.
\<close>

theorem make_subview_throws_iff_missing:
  assumes "length (View.members v) \<le> length (View.member_ips_and_ports v)"
  shows "(make_subview v with_members md is_sender_arg = Inl subgroup_provisioning_exception
            \<longleftrightarrow> (\<exists>who \<in> set with_members. who \<notin> set (View.members v)))
       \<and> (set with_members \<subseteq> set (View.members v) \<longrightarrow>
            (\<exists>sv. make_subview v with_members md is_sender_arg = Inr sv
               \<and> SubView.members sv = with_members
               \<and> length (SubView.member_ips_and_ports sv) = length with_members
               \<and> (\<forall>k < length with_members. \<forall>i < length (View.members v).
                     View.members v ! i = with_members ! k
                     \<and> (\<forall>j < i. View.members v ! j \<noteq> with_members ! k)
                     \<longrightarrow> SubView.member_ips_and_ports sv ! k = View.member_ips_and_ports v ! i)))"
proof -
  let ?init = "replicate (length with_members) default_ip_and_ports"
  have returns: "\<exists>sv. make_subview v with_members md is_sender_arg = Inr sv
               \<and> SubView.members sv = with_members
               \<and> length (SubView.member_ips_and_ports sv) = length with_members
               \<and> (\<forall>k < length with_members. \<forall>i < length (View.members v).
                     View.members v ! i = with_members ! k
                     \<and> (\<forall>j < i. View.members v ! j \<noteq> with_members ! k)
                     \<longrightarrow> SubView.member_ips_and_ports sv ! k = View.member_ips_and_ports v ! i)"
    if sub: "set with_members \<subseteq> set (View.members v)"
  proof -
    have all_in: "\<forall>j. 0 \<le> j \<and> j < length with_members \<longrightarrow> with_members ! j \<in> set (View.members v)"
      using sub by (meson nth_mem subsetD)
    have "\<exists>acc'. make_subview_loop v with_members 0 ?init = Inr acc'
           \<and> length acc' = length with_members
           \<and> (\<forall>j < 0. acc' ! j = ?init ! j)
           \<and> (\<forall>j. 0 \<le> j \<and> j < length with_members \<longrightarrow>
                 acc' ! j = View.member_ips_and_ports v
                              ! find_distance (View.members v) (with_members ! j))"
      by (rule make_subview_loop_returns [OF assms _ all_in]) simp
    then obtain ips where p: "make_subview_loop v with_members 0 ?init = Inr ips
           \<and> length ips = length with_members
           \<and> (\<forall>j < 0. ips ! j = ?init ! j)
           \<and> (\<forall>j. 0 \<le> j \<and> j < length with_members \<longrightarrow>
                 ips ! j = View.member_ips_and_ports v
                              ! find_distance (View.members v) (with_members ! j))" ..
    from p have loop: "make_subview_loop v with_members 0 ?init = Inr ips"
      by (rule conjunct1)
    from p have len: "length ips = length with_members"
      by (rule conjunct1 [OF conjunct2])
    from p have entry: "\<forall>j. 0 \<le> j \<and> j < length with_members \<longrightarrow>
                 ips ! j = View.member_ips_and_ports v
                              ! find_distance (View.members v) (with_members ! j)"
      by (rule conjunct2 [OF conjunct2 [OF conjunct2]])
    define sv where "sv = SubView_ctor md with_members is_sender_arg ips"
    have res: "make_subview v with_members md is_sender_arg = Inr sv"
      using loop by (simp add: make_subview_def sv_def)
    have m: "SubView.members sv = with_members"
      and i: "SubView.member_ips_and_ports sv = ips"
      by (simp_all add: sv_def SubView_ctor_def Let_def)
    have "SubView.member_ips_and_ports sv ! k = View.member_ips_and_ports v ! i"
      if "k < length with_members" "i < length (View.members v)"
        "View.members v ! i = with_members ! k" "\<forall>j < i. View.members v ! j \<noteq> with_members ! k"
      for k i
    proof -
      have "find_distance (View.members v) (with_members ! k) = i"
        by (rule find_distance_unique) (use that in auto)
      then show ?thesis using entry that(1) i by simp
    qed
    then show ?thesis using res m i len by blast
  qed
  have throws: "make_subview v with_members md is_sender_arg = Inl subgroup_provisioning_exception"
    if "\<exists>who \<in> set with_members. who \<notin> set (View.members v)"
  proof -
    from that obtain j where "j < length with_members" "with_members ! j \<notin> set (View.members v)"
      by (auto simp: in_set_conv_nth)
    then have "\<exists>j. 0 \<le> j \<and> j < length with_members \<and> with_members ! j \<notin> set (View.members v)"
      by blast
    from make_subview_loop_throws [OF assms this, of ?init]
    show ?thesis by (simp add: make_subview_def)
  qed
  have iff: "make_subview v with_members md is_sender_arg = Inl subgroup_provisioning_exception
            \<longleftrightarrow> (\<exists>who \<in> set with_members. who \<notin> set (View.members v))"
  proof
    assume t: "make_subview v with_members md is_sender_arg = Inl subgroup_provisioning_exception"
    show "\<exists>who \<in> set with_members. who \<notin> set (View.members v)"
    proof (rule ccontr)
      assume "\<not> (\<exists>who \<in> set with_members. who \<notin> set (View.members v))"
      then have "set with_members \<subseteq> set (View.members v)" by blast
      from returns [OF this] t show False by auto
    qed
  next
    assume "\<exists>who \<in> set with_members. who \<notin> set (View.members v)"
    then show "make_subview v with_members md is_sender_arg = Inl subgroup_provisioning_exception"
      by (rule throws)
  qed
  show ?thesis
  proof (intro conjI impI)
    show "make_subview v with_members md is_sender_arg = Inl subgroup_provisioning_exception
            \<longleftrightarrow> (\<exists>who \<in> set with_members. who \<notin> set (View.members v))"
      by (rule iff)
  next
    assume "set with_members \<subseteq> set (View.members v)"
    then show "\<exists>sv. make_subview v with_members md is_sender_arg = Inr sv
               \<and> SubView.members sv = with_members
               \<and> length (SubView.member_ips_and_ports sv) = length with_members
               \<and> (\<forall>k < length with_members. \<forall>i < length (View.members v).
                     View.members v ! i = with_members ! k
                     \<and> (\<forall>j < i. View.members v ! j \<noteq> with_members ! k)
                     \<longrightarrow> SubView.member_ips_and_ports sv ! k = View.member_ips_and_ports v ! i)"
      by (rule returns)
  qed
qed

theorem make_subview_throws_iff_missing_witness:
  "length (View.members example_addressed_view)
     \<le> length (View.member_ips_and_ports example_addressed_view)
   \<and> make_subview example_addressed_view [12, 13] ORDERED [] = Inl subgroup_provisioning_exception
   \<and> make_subview example_addressed_view [12, 10] ORDERED []
       = Inr \<lparr> mode = ORDERED, members = [12, 10], is_sender = [1, 1],
               member_ips_and_ports = [(''10.0.0.3'', 9, 10, 11, 12), (''10.0.0.1'', 1, 2, 3, 4)],
               joined = [], departed = [], my_rank = - 1 \<rparr>"
proof -
  have h: "length (View.members example_addressed_view)
             \<le> length (View.member_ips_and_ports example_addressed_view)"
    by (simp add: example_addressed_view_def)
  have "make_subview example_addressed_view [12, 13] ORDERED [] = Inl subgroup_provisioning_exception"
    using make_subview_throws_iff_missing [OF h, of "[12, 13]" ORDERED "[]"]
    by (simp add: example_addressed_view_def)
  moreover have "make_subview example_addressed_view [12, 10] ORDERED []
       = Inr \<lparr> mode = ORDERED, members = [12, 10], is_sender = [1, 1],
               member_ips_and_ports = [(''10.0.0.3'', 9, 10, 11, 12), (''10.0.0.1'', 1, 2, 3, 4)],
               joined = [], departed = [], my_rank = - 1 \<rparr>"
    using make_subview_throws_iff_missing [OF h, of "[12, 10]" ORDERED "[]"]
    by (simp add: example_addressed_view_def make_subview_def make_subview_loop.simps
        index_vec_def SubView_ctor_def default_ip_and_ports_def)
  ultimately show ?thesis using h by simp
qed

section \<open>Serializing and deserializing a View\<close>

lemma node_id_to_rank_loop_returns:
  assumes "n \<le> int (length mems)" "0 \<le> rank"
  shows "\<exists>m'. node_id_to_rank_loop mems n rank m = Inr m'"
  using assms
proof (induction mems n rank m rule: node_id_to_rank_loop.induct)
  case (1 mems n rank m)
  show ?case
  proof (cases "rank < n")
    case False
    then show ?thesis by (simp add: node_id_to_rank_loop.simps)
  next
    case True
    have ix: "index_vec mems rank = Inr (mems ! nat rank)"
      using True "1.prems" by (simp add: index_vec_def)
    have step: "node_id_to_rank_loop mems n rank m
                  = node_id_to_rank_loop mems n (rank + 1) (m(mems ! nat rank \<mapsto> rank))"
      using True ix by (simp add: node_id_to_rank_loop.simps [of mems n rank m])
    have nn: "0 \<le> rank + 1" using "1.prems"(2) by simp
    show ?thesis
      unfolding step by (rule "1.IH" [OF True ix "1.prems"(1) nn])
  qed
qed

text \<open>
  Claim C3, as the code has it. Deserializing the serialized form of a View (whose
  \<^verbatim>\<open>num_members\<close> does not exceed the length of \<^verbatim>\<open>members\<close>) yields a View equal
  to the original in every serialized field: \<^verbatim>\<open>vid\<close>, \<^verbatim>\<open>members\<close>,
  \<^verbatim>\<open>member_ips_and_ports\<close>, \<^verbatim>\<open>failed\<close>, \<^verbatim>\<open>num_failed\<close>, \<^verbatim>\<open>joined\<close>,
  \<^verbatim>\<open>departed\<close>, \<^verbatim>\<open>num_members\<close>, \<^verbatim>\<open>subgroup_ids_by_type_id\<close>,
  \<^verbatim>\<open>subgroup_shard_views\<close> and \<^verbatim>\<open>my_subgroups\<close>. \<^verbatim>\<open>my_rank\<close> and
  \<^verbatim>\<open>next_unassigned_rank\<close> are not carried over: the constructor sets both to \<open>0\<close>.
\<close>

theorem View_roundtrip_serialized_fields:
  assumes "num_members v \<le> int (length (View.members v))"
  shows "\<exists>v'. View_deserialize (View_serialize v) = Inr v'
           \<and> View.vid v' = View.vid v
           \<and> View.members v' = View.members v
           \<and> View.member_ips_and_ports v' = View.member_ips_and_ports v
           \<and> failed v' = failed v
           \<and> num_failed v' = num_failed v
           \<and> View.joined v' = View.joined v
           \<and> View.departed v' = View.departed v
           \<and> num_members v' = num_members v
           \<and> subgroup_ids_by_type_id v' = subgroup_ids_by_type_id v
           \<and> subgroup_shard_views v' = subgroup_shard_views v
           \<and> my_subgroups v' = my_subgroups v
           \<and> View.my_rank v' = 0
           \<and> next_unassigned_rank v' = 0"
proof -
  obtain m where m: "node_id_to_rank_loop (View.members v) (num_members v) 0 Map.empty = Inr m"
    using node_id_to_rank_loop_returns [OF assms, of 0 Map.empty] by auto
  show ?thesis
    by (simp add: View_deserialize_def View_serialize_def View_from_fields_def m)
qed

theorem View_roundtrip_serialized_fields_witness:
  "num_members example_sharded_view \<le> int (length (View.members example_sharded_view))
   \<and> map_sum id subgroup_shard_views (View_deserialize (View_serialize example_sharded_view))
       = Inr [[SubView_ctor ORDERED [10, 12] [] []]]
   \<and> map_sum id failed (View_deserialize (View_serialize example_sharded_view)) = Inr [1, 0, 0]"
proof -
  have h: "num_members example_sharded_view \<le> int (length (View.members example_sharded_view))"
    by (simp add: example_sharded_view_def)
  from View_roundtrip_serialized_fields [OF h] obtain v' where
    "View_deserialize (View_serialize example_sharded_view) = Inr v'"
    "subgroup_shard_views v' = subgroup_shard_views example_sharded_view"
    "failed v' = failed example_sharded_view"
    by blast
  then show ?thesis using h by (simp add: example_sharded_view_def)
qed

text \<open>
  Claim C3, as stated, fails: a View with \<^verbatim>\<open>my_rank = 1\<close> and
  \<^verbatim>\<open>next_unassigned_rank = 3\<close> comes back with both fields \<open>0\<close>.
\<close>

theorem View_roundtrip_counterexample:
  "map_sum id View.my_rank (View_deserialize (View_serialize example_sharded_view)) = Inr 0
   \<and> View.my_rank example_sharded_view = 1
   \<and> map_sum id next_unassigned_rank (View_deserialize (View_serialize example_sharded_view)) = Inr 0
   \<and> next_unassigned_rank example_sharded_view = 3
   \<and> View_deserialize (View_serialize example_sharded_view) \<noteq> Inr example_sharded_view"
  by (simp add: View_deserialize_def View_serialize_def View_from_fields_def
      example_sharded_view_def node_id_to_rank_loop.simps index_vec_def)

section \<open>Becoming the new leader\<close>

lemma i_am_new_leader_known:
  "i_know_i_am_leader v \<Longrightarrow> i_am_new_leader v s = Inr (False, v)"
  by (simp add: i_am_new_leader_def)

lemma i_am_new_leader_records:
  "i_am_new_leader v s = Inr (True, v') \<Longrightarrow> i_know_i_am_leader v'"
  by (auto simp: i_am_new_leader_def split: if_splits sum.splits)

lemma i_am_new_leader_calls_known:
  "i_know_i_am_leader v \<Longrightarrow>
   i_am_new_leader_calls v env = replicate (length env) (Inr False)"
proof (induction env arbitrary: v)
  case Nil
  show ?case by simp
next
  case (Cons now later)
  obtain failed_now s where now: "now = (failed_now, s)" by (cases now)
  have k: "i_know_i_am_leader (v\<lparr> failed := failed_now \<rparr>)" using Cons.prems by simp
  show ?case
    using Cons.IH [OF k] i_am_new_leader_known [OF k, of s] now by simp
qed

text \<open>
  Claim C10. Over any sequence of calls of \<^verbatim>\<open>i_am_new_leader\<close> on the same View,
  whatever \<^verbatim>\<open>failed\<close> and the state table hold at each call, at most one call
  returns true: once a call has returned true (and recorded
  \<^verbatim>\<open>i_know_i_am_leader\<close>), every later call returns false.
\<close>

theorem i_am_new_leader_true_at_most_once:
  "length (filter (\<lambda>r. r = Inr True) (i_am_new_leader_calls v env)) \<le> 1
   \<and> (\<forall>i j. i < j \<and> j < length (i_am_new_leader_calls v env)
          \<and> i_am_new_leader_calls v env ! i = Inr True
          \<longrightarrow> i_am_new_leader_calls v env ! j = Inr False)"
proof (induction env arbitrary: v)
  case Nil
  show ?case by simp
next
  case (Cons now later)
  obtain failed_now s where now: "now = (failed_now, s)" by (cases now)
  let ?v = "v\<lparr> failed := failed_now \<rparr>"
  show ?case
  proof (cases "i_am_new_leader ?v s")
    case (Inl e)
    then have "i_am_new_leader_calls v (now # later) = [Inl e]" using now by simp
    then show ?thesis by simp
  next
    case (Inr p)
    obtain answer v' where p: "p = (answer, v')" by (cases p)
    have unfold: "i_am_new_leader_calls v (now # later) = Inr answer # i_am_new_leader_calls v' later"
      using Inr p now by simp
    show ?thesis
    proof (cases answer)
      case True
      then have "i_am_new_leader ?v s = Inr (True, v')"
        using Inr p by simp
      then have "i_know_i_am_leader v'"
        by (rule i_am_new_leader_records)
      then have rest: "i_am_new_leader_calls v' later = replicate (length later) (Inr False)"
        by (rule i_am_new_leader_calls_known)
      have all: "i_am_new_leader_calls v (now # later)
                   = Inr True # replicate (length later) (Inr False)"
        using unfold rest True by simp
      have "filter (\<lambda>r. r = Inr True) (replicate (length later) (Inr False :: fault + bool)) = []"
        by simp
      then have one: "length (filter (\<lambda>r. r = Inr True) (i_am_new_leader_calls v (now # later))) \<le> 1"
        unfolding all by simp
      have "i_am_new_leader_calls v (now # later) ! j = Inr False"
        if "i < j" "j < length (i_am_new_leader_calls v (now # later))" for i j
      proof -
        from that(1) have "j \<noteq> 0" by simp
        then obtain j' where j': "j = Suc j'" by (cases j) auto
        then have "j' < length later" using that(2) all by simp
        then show ?thesis unfolding all j' by simp
      qed
      then show ?thesis using one by blast
    next
      case False
      note IH = Cons.IH [of v']
      have one: "length (filter (\<lambda>r. r = Inr True) (i_am_new_leader_calls v (now # later))) \<le> 1"
        unfolding unfold using IH False by simp
      have "i_am_new_leader_calls v (now # later) ! j = Inr False"
        if "i < j" "j < length (i_am_new_leader_calls v (now # later))"
          "i_am_new_leader_calls v (now # later) ! i = Inr True" for i j
      proof -
        from that(1) have "j \<noteq> 0" by simp
        then obtain j' where j': "j = Suc j'" by (cases j) auto
        have first: "i_am_new_leader_calls v (now # later) ! 0 = Inr False"
          unfolding unfold using False by simp
        have "i \<noteq> 0"
        proof
          assume "i = 0"
          then show False using that(3) first by simp
        qed
        then obtain i' where i': "i = Suc i'" by (cases i) auto
        have "i' < j'" using that(1) i' j' by simp
        moreover have "j' < length (i_am_new_leader_calls v' later)"
          using that(2) unfolding unfold j' by simp
        moreover have "i_am_new_leader_calls v' later ! i' = Inr True"
          using that(3) unfolding unfold i' by simp
        ultimately have "i' < j' \<and> j' < length (i_am_new_leader_calls v' later)
          \<and> i_am_new_leader_calls v' later ! i' = Inr True" by simp
        then have "i_am_new_leader_calls v' later ! j' = Inr False"
          using IH by blast
        then show ?thesis unfolding unfold j' by simp
      qed
      then show ?thesis using one by blast
    qed
  qed
qed

theorem i_am_new_leader_true_at_most_once_witness:
  "i_am_new_leader_calls example_follower_view
      [([0, 0, 0], example_sst), ([0, 0, 0], example_sst_suspecting),
       ([0, 0, 0], example_sst), ([1, 0, 0], example_sst)]
     = [Inr False, Inr True, Inr False, Inr False]"
  using i_am_new_leader_true_at_most_once [of example_follower_view
      "[([0, 0, 0], example_sst), ([0, 0, 0], example_sst_suspecting),
        ([0, 0, 0], example_sst), ([1, 0, 0], example_sst)]"]
  by (simp add: example_follower_view_def example_sst_def example_sst_suspecting_def
      example_row_def i_am_new_leader_def new_leader_ranks.simps new_leader_rows.simps
      suspected_at_def index_vec_def)

section \<open>Wedging\<close>

text \<open>
  Claim C8. When \<^verbatim>\<open>my_rank\<close> names a row of the table, \<^verbatim>\<open>View::wedge\<close> returns
  and has made exactly two calls, in this order: the wedge of the multicast group, made
  while the table was still as on entry (the flag not yet written), and then the
  \<^verbatim>\<open>put\<close> that covers the \<^verbatim>\<open>wedged\<close> field and nothing else, made on the table
  with the flag set. The table changes in the local row's \<^verbatim>\<open>wedged\<close> field only, and
  that field is true afterwards whatever it was before.
\<close>

theorem wedge_sets_and_publishes_wedged:
  assumes "0 \<le> View.my_rank v" "View.my_rank v < int (length (rows (gmsSST g)))"
  shows "\<exists>g'. wedge v g = Inr g'
           \<and> calls g' = calls g @ [multicast_group_wedge (gmsSST g),
                                   sst_put (put_field wedged_field) (gmsSST g')]
           \<and> put_covers (put_field wedged_field) = [wedged_field]
           \<and> multicast_group_wedged g'
           \<and> rows (gmsSST g') = (rows (gmsSST g))
                [nat (View.my_rank v) := (rows (gmsSST g) ! nat (View.my_rank v))\<lparr> wedged := True \<rparr>]
           \<and> changes_size (gmsSST g') = changes_size (gmsSST g)
           \<and> wedged (rows (gmsSST g') ! nat (View.my_rank v))"
proof -
  have ix: "index_vec (rows (gmsSST g)) (View.my_rank v)
              = Inr (rows (gmsSST g) ! nat (View.my_rank v))"
    using assms by (simp add: index_vec_def)
  have lt: "nat (View.my_rank v) < length (rows (gmsSST g))"
    using assms by simp
  show ?thesis
    using lt by (simp add: wedge_def Let_def ix)
qed

theorem wedge_sets_and_publishes_wedged_witness:
  "0 \<le> View.my_rank example_follower_view
   \<and> View.my_rank example_follower_view < int (length (rows (gmsSST example_group)))
   \<and> map_sum id (\<lambda>g'. map wedged (rows (gmsSST g'))) (wedge example_follower_view example_group)
       = Inr [False, True, False]
   \<and> map_sum id (\<lambda>g'. length (calls g')) (wedge example_follower_view example_group) = Inr 2"
proof -
  have h1: "0 \<le> View.my_rank example_follower_view"
    by (simp add: example_follower_view_def)
  have h2: "View.my_rank example_follower_view < int (length (rows (gmsSST example_group)))"
    by (simp add: example_follower_view_def example_group_def example_sst_def)
  from wedge_sets_and_publishes_wedged [OF h1 h2] obtain g' where
    w: "wedge example_follower_view example_group = Inr g'"
    and c: "calls g' = calls example_group @ [multicast_group_wedge (gmsSST example_group),
                                   sst_put (put_field wedged_field) (gmsSST g')]"
    and r: "rows (gmsSST g') = (rows (gmsSST example_group))
                [nat (View.my_rank example_follower_view) :=
                   (rows (gmsSST example_group) ! nat (View.my_rank example_follower_view))
                     \<lparr> wedged := True \<rparr>]"
    by blast
  have "map wedged (rows (gmsSST g')) = [False, True, False]"
    unfolding r by (simp add: example_follower_view_def example_group_def example_sst_def
        example_row_def)
  moreover have "length (calls g') = 2"
    unfolding c by (simp add: example_group_def)
  ultimately show ?thesis using h1 h2 w by simp
qed

section \<open>Merging the change logs\<close>

lemma local_row_advanced_refl: "table_fits v s \<Longrightarrow> local_row_advanced v s s"
  by (simp add: local_row_advanced_def)

lemma local_row_advanced_trans:
  "local_row_advanced v s s1 \<Longrightarrow> local_row_advanced v s1 s2 \<Longrightarrow> local_row_advanced v s s2"
proof -
  assume a: "local_row_advanced v s s1" and b: "local_row_advanced v s1 s2"
  have len: "length (rows s1) = length (rows s)" "length (rows s2) = length (rows s1)"
    using a b unfolding local_row_advanced_def by simp_all
  have "rows s2 ! k = rows s ! k" if "k < length (rows s)" "k \<noteq> nat (View.my_rank v)" for k
  proof -
    have "rows s1 ! k = rows s ! k" using a that unfolding local_row_advanced_def by blast
    moreover have "rows s2 ! k = rows s1 ! k"
      using b that len unfolding local_row_advanced_def by simp
    ultimately show ?thesis by simp
  qed
  moreover have "sint (num_changes (rows s ! nat (View.my_rank v)))
                   \<le> sint (num_changes (rows s2 ! nat (View.my_rank v)))"
    using a b unfolding local_row_advanced_def by linarith
  moreover have "sint (num_committed (rows s ! nat (View.my_rank v)))
                   \<le> sint (num_committed (rows s2 ! nat (View.my_rank v)))"
    using a b unfolding local_row_advanced_def by linarith
  moreover have "table_fits v s2" using b unfolding local_row_advanced_def by simp
  ultimately show ?thesis using len unfolding local_row_advanced_def by simp
qed

lemma table_fits_bounds:
  assumes "table_fits v s"
  shows "nat (View.my_rank v) < length (rows s)"
    and "0 \<le> View.my_rank v"
    and "0 < changes_size s"
    and "\<And>r. r \<in> set (rows s) \<Longrightarrow> length (changes r) = changes_size s"
    and "\<And>n. 0 \<le> n \<Longrightarrow> n < num_members v \<Longrightarrow>
           nat n < length (rows s) \<and> nat n < length (failed v) \<and> nat n < length (View.members v)"
proof -
  from assms have a: "0 \<le> View.my_rank v" "View.my_rank v < int (length (rows s))"
    "num_members v \<le> int (length (rows s))" "num_members v \<le> int (length (failed v))"
    "num_members v \<le> int (length (View.members v))" "0 < changes_size s"
    and b: "\<forall>r \<in> set (rows s). length (changes r) = changes_size s"
    unfolding table_fits_def by blast+
  show "nat (View.my_rank v) < length (rows s)" using a(1,2) by linarith
  show "0 \<le> View.my_rank v" by (rule a(1))
  show "0 < changes_size s" by (rule a(6))
  show "length (changes r) = changes_size s" if "r \<in> set (rows s)" for r
    using b that by blast
  show "nat n < length (rows s) \<and> nat n < length (failed v) \<and> nat n < length (View.members v)"
    if "0 \<le> n" "n < num_members v" for n
    using that a(3,4,5) by linarith
qed

lemma table_fits_update:
  assumes fits: "table_fits v s"
    and len: "length (changes row') = changes_size s"
  shows "table_fits v (s\<lparr> rows := (rows s)[nat (View.my_rank v) := row'] \<rparr>)"
proof -
  have "set ((rows s)[nat (View.my_rank v) := row']) \<subseteq> insert row' (set (rows s))"
    by (rule set_update_subset_insert)
  then have "\<forall>r \<in> set ((rows s)[nat (View.my_rank v) := row']). length (changes r) = changes_size s"
    using fits len unfolding table_fits_def by blast
  then show ?thesis using fits unfolding table_fits_def by simp
qed

lemma local_row_advanced_update:
  assumes fits: "table_fits v s"
    and len: "length (changes row') = changes_size s"
    and nc: "sint (num_changes (rows s ! nat (View.my_rank v))) \<le> sint (num_changes row')"
    and nm: "sint (num_committed (rows s ! nat (View.my_rank v))) \<le> sint (num_committed row')"
  shows "local_row_advanced v s (s\<lparr> rows := (rows s)[nat (View.my_rank v) := row'] \<rparr>)"
proof -
  have lt: "nat (View.my_rank v) < length (rows s)"
    by (rule table_fits_bounds(1) [OF fits])
  show ?thesis
    unfolding local_row_advanced_def
    using table_fits_update [OF fits len] lt nc nm by simp
qed

lemma table_fits_row:
  assumes "table_fits v s" "0 \<le> n" "n < num_members v"
  shows "index_vec (rows s) n = Inr (rows s ! nat n)"
    and "length (changes (rows s ! nat n)) = changes_size s"
    and "index_vec (failed v) n = Inr (failed v ! nat n)"
    and "index_vec (View.members v) n = Inr (View.members v ! nat n)"
proof -
  note b = table_fits_bounds(5) [OF assms]
  have "rows s ! nat n \<in> set (rows s)" using b by simp
  then show "length (changes (rows s ! nat n)) = changes_size s"
    by (rule table_fits_bounds(4) [OF assms(1)])
  have "n < int (length (rows s))" "n < int (length (failed v))"
    "n < int (length (View.members v))"
    using b assms(2) by linarith+
  then show "index_vec (rows s) n = Inr (rows s ! nat n)"
    and "index_vec (failed v) n = Inr (failed v ! nat n)"
    and "index_vec (View.members v) n = Inr (View.members v ! nat n)"
    using assms(2) by (simp_all add: index_vec_def)
qed

lemma table_fits_mine:
  assumes "table_fits v s"
  shows "index_vec (rows s) (View.my_rank v) = Inr (rows s ! nat (View.my_rank v))"
    and "length (changes (rows s ! nat (View.my_rank v))) = changes_size s"
    and "nat (View.my_rank v) < length (rows s)"
proof -
  show lt: "nat (View.my_rank v) < length (rows s)"
    by (rule table_fits_bounds(1) [OF assms])
  then have "rows s ! nat (View.my_rank v) \<in> set (rows s)" by simp
  then show "length (changes (rows s ! nat (View.my_rank v))) = changes_size s"
    by (rule table_fits_bounds(4) [OF assms])
  have "View.my_rank v < int (length (rows s))"
    using lt table_fits_bounds(2) [OF assms] by linarith
  then show "index_vec (rows s) (View.my_rank v) = Inr (rows s ! nat (View.my_rank v))"
    using table_fits_bounds(2) [OF assms] by (simp add: index_vec_def)
qed

lemma sint_increment:
  assumes "sint member < 2147483647"
  shows "sint (increment member) = sint member + 1"
proof -
  have lo: "- (2 ^ 31) \<le> sint member" using sint_ge [of member] by simp
  have "sint (member + 1) = signed_take_bit 31 (sint member + 1)"
    by (simp add: sint_word_ariths)
  also have "\<dots> = sint member + 1"
    by (rule signed_take_bit_int_eq_self) (use assms lo in simp_all)
  finally show ?thesis by (simp add: increment_def)
qed

lemma increment_wraps: "sint (increment 2147483647) = - 2147483648"
  by (simp add: increment_def)

lemma counters_leave_room_update:
  assumes room: "counters_leave_room v s"
    and row: "sint (num_changes row') + num_members v < 2 ^ 31"
  shows "counters_leave_room v (s\<lparr> rows := (rows s)[k := row'] \<rparr>)"
proof -
  have "set ((rows s)[k := row']) \<subseteq> insert row' (set (rows s))"
    by (rule set_update_subset_insert)
  then have "\<forall>r \<in> set ((rows s)[k := row']). sint (num_changes r) + num_members v < 2 ^ 31"
    using room row unfolding counters_leave_room_def by blast
  then show ?thesis unfolding counters_leave_room_def by simp
qed

lemma merge_row_spec:
  assumes fits: "table_fits v s" and n: "0 \<le> n" "n < num_members v"
  shows "\<exists>s'. merge_row v s n = Inr s' \<and> local_row_advanced v s s'
           \<and> sint (num_changes (rows s ! nat n)) \<le> sint (num_changes (rows s' ! nat (View.my_rank v)))
           \<and> sint (num_committed (rows s ! nat n)) \<le> sint (num_committed (rows s' ! nat (View.my_rank v)))
           \<and> (counters_leave_room v s \<longrightarrow> counters_leave_room v s')"
proof -
  define mine where "mine = rows s ! nat (View.my_rank v)"
  define other where "other = rows s ! nat n"
  note m = table_fits_mine [OF fits, folded mine_def]
  note o = table_fits_row [OF fits n, folded other_def]
  define mine1 where "mine1 =
    (if sint (num_changes mine) < sint (num_changes other)
     then mine\<lparr> changes := take (changes_size s) (changes other) @ drop (changes_size s) (changes mine),
                num_changes := num_changes other \<rparr>
     else mine)"
  define mine2 where "mine2 =
    (if sint (num_committed mine1) < sint (num_committed other)
     then mine1\<lparr> num_committed := num_committed other \<rparr> else mine1)"
  define s' where "s' = s\<lparr> rows := (rows s)[nat (View.my_rank v) := mine2] \<rparr>"
  have res: "merge_row v s n = Inr s'"
    using m(1,2) o(1,2)
    by (simp add: merge_row_def memcpy_elems_def mine1_def mine2_def s'_def)
  have len: "length (changes mine2) = changes_size s"
    using m(2) o(2) by (simp add: mine1_def mine2_def)
  have nc: "sint (num_changes mine) \<le> sint (num_changes mine2)" "sint (num_changes other) \<le> sint (num_changes mine2)"
    by (simp_all add: mine1_def mine2_def)
  have nm: "sint (num_committed mine) \<le> sint (num_committed mine2)" "sint (num_committed other) \<le> sint (num_committed mine2)"
    by (simp_all add: mine1_def mine2_def)
  have adv: "local_row_advanced v s s'"
    unfolding s'_def
    by (rule local_row_advanced_update [OF fits len]) (use nc nm in \<open>simp_all add: mine_def\<close>)
  have at: "rows s' ! nat (View.my_rank v) = mine2"
    using m(3) by (simp add: s'_def)
  have "sint (num_changes (rows s ! nat n)) \<le> sint (num_changes (rows s' ! nat (View.my_rank v)))"
    and "sint (num_committed (rows s ! nat n)) \<le> sint (num_committed (rows s' ! nat (View.my_rank v)))"
    using nc(2) nm(2) by (simp_all add: at other_def)
  moreover have "counters_leave_room v s'" if room: "counters_leave_room v s"
  proof -
    have pick: "num_changes mine2 = num_changes mine \<or> num_changes mine2 = num_changes other"
      by (simp add: mine1_def mine2_def)
    have "mine \<in> set (rows s)" using m(3) by (simp add: mine_def)
    moreover have "other \<in> set (rows s)"
      using table_fits_bounds(5) [OF fits n] by (simp add: other_def)
    ultimately have "sint (num_changes mine2) + num_members v < 2 ^ 31"
      using pick room unfolding counters_leave_room_def by auto
    then show ?thesis unfolding s'_def by (rule counters_leave_room_update [OF room])
  qed
  ultimately show ?thesis using res adv by blast
qed


lemma merge_loop_spec:
  assumes "table_fits v s" "0 \<le> n"
  shows "\<exists>s'. merge_loop v s n = Inr s' \<and> local_row_advanced v s s'
           \<and> (\<forall>k. n \<le> k \<and> k < num_members v \<longrightarrow>
                 sint (num_changes (rows s ! nat k)) \<le> sint (num_changes (rows s' ! nat (View.my_rank v)))
                 \<and> sint (num_committed (rows s ! nat k)) \<le> sint (num_committed (rows s' ! nat (View.my_rank v))))"
  using assms
proof (induction v s n rule: merge_loop.induct)
  case (1 v s n)
  show ?case
  proof (cases "n < num_members v")
    case False
    then have "merge_loop v s n = Inr s" by (simp add: merge_loop.simps)
    then show ?thesis using False local_row_advanced_refl [OF "1.prems"(1)] by auto
  next
    case True
    from merge_row_spec [OF "1.prems"(1,2) True] obtain s1 where
      row: "merge_row v s n = Inr s1" and adv1: "local_row_advanced v s s1"
      and atn: "sint (num_changes (rows s ! nat n)) \<le> sint (num_changes (rows s1 ! nat (View.my_rank v)))"
               "sint (num_committed (rows s ! nat n)) \<le> sint (num_committed (rows s1 ! nat (View.my_rank v)))"
      by blast
    have step: "merge_loop v s n = merge_loop v s1 (n + 1)"
      using True row by (simp add: merge_loop.simps [of v s n])
    have fits1: "table_fits v s1" using adv1 unfolding local_row_advanced_def by simp
    have nn: "0 \<le> n + 1" using "1.prems"(2) by simp
    from "1.IH" [OF True row fits1 nn] obtain s' where
      loop: "merge_loop v s1 (n + 1) = Inr s'" and adv2: "local_row_advanced v s1 s'"
      and later: "\<forall>k. n + 1 \<le> k \<and> k < num_members v \<longrightarrow>
                 sint (num_changes (rows s1 ! nat k)) \<le> sint (num_changes (rows s' ! nat (View.my_rank v)))
                 \<and> sint (num_committed (rows s1 ! nat k)) \<le> sint (num_committed (rows s' ! nat (View.my_rank v)))"
      by blast
    have adv: "local_row_advanced v s s'"
      by (rule local_row_advanced_trans [OF adv1 adv2])
    have mono1: "sint (num_changes (rows s1 ! nat (View.my_rank v))) \<le> sint (num_changes (rows s' ! nat (View.my_rank v)))"
      "sint (num_committed (rows s1 ! nat (View.my_rank v))) \<le> sint (num_committed (rows s' ! nat (View.my_rank v)))"
      using adv2 unfolding local_row_advanced_def by simp_all
    have mono0: "sint (num_changes (rows s ! nat (View.my_rank v))) \<le> sint (num_changes (rows s' ! nat (View.my_rank v)))"
      "sint (num_committed (rows s ! nat (View.my_rank v))) \<le> sint (num_committed (rows s' ! nat (View.my_rank v)))"
      using adv unfolding local_row_advanced_def by simp_all
    have "sint (num_changes (rows s ! nat k)) \<le> sint (num_changes (rows s' ! nat (View.my_rank v)))
          \<and> sint (num_committed (rows s ! nat k)) \<le> sint (num_committed (rows s' ! nat (View.my_rank v)))"
      if k: "n \<le> k \<and> k < num_members v" for k
    proof (cases "k = n")
      case True
      show ?thesis unfolding True using atn mono1 by linarith
    next
      case False
      then have k1: "n + 1 \<le> k \<and> k < num_members v" using k by simp
      have k0: "0 \<le> k" using k "1.prems"(2) by simp
      show ?thesis
      proof (cases "nat k = nat (View.my_rank v)")
        case True
        then show ?thesis using mono0 by simp
      next
        case ne: False
        have "nat k < length (rows s)"
          using table_fits_bounds(5) [OF "1.prems"(1) k0] k by simp
        then have eq: "rows s1 ! nat k = rows s ! nat k"
          using adv1 ne unfolding local_row_advanced_def by blast
        from later k1 have "sint (num_changes (rows s1 ! nat k)) \<le> sint (num_changes (rows s' ! nat (View.my_rank v)))
                 \<and> sint (num_committed (rows s1 ! nat k)) \<le> sint (num_committed (rows s' ! nat (View.my_rank v)))"
          by blast
        then show ?thesis unfolding eq .
      qed
    qed
    then show ?thesis using step loop adv by simp
  qed
qed

lemma merge_loop_keeps_room:
  assumes "table_fits v s" "0 \<le> n" "counters_leave_room v s" "merge_loop v s n = Inr s'"
  shows "counters_leave_room v s'"
  using assms
proof (induction v s n rule: merge_loop.induct)
  case (1 v s n)
  show ?case
  proof (cases "n < num_members v")
    case False
    then have "merge_loop v s n = Inr s" by (simp add: merge_loop.simps)
    then show ?thesis using "1.prems"(3,4) by simp
  next
    case True
    from merge_row_spec [OF "1.prems"(1,2) True] obtain s1 where
      row: "merge_row v s n = Inr s1" and adv1: "local_row_advanced v s s1"
      and room1: "counters_leave_room v s \<longrightarrow> counters_leave_room v s1"
      by blast
    have step: "merge_loop v s n = merge_loop v s1 (n + 1)"
      using True row by (simp add: merge_loop.simps [of v s n])
    have fits1: "table_fits v s1" using adv1 unfolding local_row_advanced_def by simp
    have nn: "0 \<le> n + 1" using "1.prems"(2) by simp
    have r1: "counters_leave_room v s1" using room1 "1.prems"(3) by blast
    have rest: "merge_loop v s1 (n + 1) = Inr s'" using "1.prems"(4) step by simp
    show ?thesis by (rule "1.IH" [OF True row fits1 nn r1 rest])
  qed
qed

lemma already_listed_loop_returns:
  assumes "table_fits v s" "0 \<le> n" "n < num_members v"
  shows "\<exists>b. already_listed_loop v s n c found = Inr b"
  using assms
proof (induction v s n c found rule: already_listed_loop.induct)
  case (1 v s n c found)
  note m = table_fits_mine [OF "1.prems"(1)]
  note r = table_fits_row [OF "1.prems"]
  define mine where "mine = rows s ! nat (View.my_rank v)"
  show ?case
  proof (cases "c < sint (num_changes mine) \<and> \<not> found")
    case False
    then show ?thesis
      using m(1) by (subst already_listed_loop.simps) (auto simp: mine_def)
  next
    case True
    have pos: "changes_size s \<noteq> 0" using table_fits_bounds(3) [OF "1.prems"(1)] by simp
    have "size_t_of_int c mod changes_size s < length (changes mine)"
      using pos m(2) by (simp add: mine_def)
    then have ix: "index_vec (changes mine) (int (size_t_of_int c mod changes_size s))
                     = Inr (changes mine ! (size_t_of_int c mod changes_size s))"
      by (simp add: index_vec_def)
    have step: "already_listed_loop v s n c found
                  = already_listed_loop v s n (c + 1)
                      (if changes mine ! (size_t_of_int c mod changes_size s) = View.members v ! nat n
                       then True else found)"
      using True pos ix r(4) m(1)
      by (subst already_listed_loop.simps) (simp add: mine_def)
    show ?thesis
      unfolding step
      by (rule "1.IH" [OF m(1) [folded mine_def] True pos ix r(4) "1.prems"])
  qed
qed

lemma propose_failed_spec:
  assumes fits: "table_fits v s" and n: "0 \<le> n" "n < num_members v"
    and room: "sint (num_changes (rows s ! nat (View.my_rank v))) + (num_members v - n) < 2 ^ 31"
  shows "\<exists>s' found'. propose_failed v s n found = Inr (s', found') \<and> local_row_advanced v s s'
           \<and> sint (num_changes (rows s' ! nat (View.my_rank v))) + (num_members v - (n + 1)) < 2 ^ 31"
proof -
  note m = table_fits_mine [OF fits]
  note r = table_fits_row [OF fits n]
  define mine where "mine = rows s ! nat (View.my_rank v)"
  have pos: "changes_size s \<noteq> 0" using table_fits_bounds(3) [OF fits] by simp
  obtain found1 where scan:
    "failed v ! nat n \<noteq> 0 \<Longrightarrow> already_listed_loop v s n (sint (num_committed mine)) found = Inr found1"
    "failed v ! nat n = 0 \<Longrightarrow> found1 = True"
  proof (cases "failed v ! nat n = 0")
    case True
    then show ?thesis using that [of True] by simp
  next
    case False
    obtain b where "already_listed_loop v s n (sint (num_committed mine)) found = Inr b"
      using already_listed_loop_returns [OF fits n, of "sint (num_committed mine)" found] by blast
    then show ?thesis using that [of b] False by simp
  qed
  show ?thesis
  proof (cases found1)
    case True
    have "propose_failed v s n found = Inr (s, found1)"
    proof (cases "failed v ! nat n = 0")
      case z: True
      then show ?thesis
        using scan(2) r(3) m(1) by (simp add: propose_failed_def)
    next
      case nz: False
      then show ?thesis
        using scan(1) True r(3) m(1) by (simp add: propose_failed_def mine_def [symmetric])
    qed
    moreover have "sint (num_changes (rows s ! nat (View.my_rank v))) + (num_members v - (n + 1)) < 2 ^ 31"
      using room by simp
    ultimately show ?thesis using local_row_advanced_refl [OF fits] by blast
  next
    case False
    then have nz: "failed v ! nat n \<noteq> 0" using scan(2) by blast
    have below: "sint (num_changes mine) < 2147483647"
      using room n(2) by (simp add: mine_def)
    note up = sint_increment [OF below]
    define slot where "slot = size_t_of_int (sint (num_changes mine)) mod changes_size s"
    define row' where "row' = mine\<lparr> changes := (changes mine)[slot := View.members v ! nat n],
                                    num_changes := increment (num_changes mine) \<rparr>"
    define s' where "s' = s\<lparr> rows := (rows s)[nat (View.my_rank v) := row'] \<rparr>"
    have "slot < length (changes mine)"
      using pos m(2) by (simp add: mine_def slot_def)
    then have "propose_failed v s n found = Inr (s', found1)"
      using scan(1) [OF nz] nz r(3,4) m(1) False pos
      by (simp add: propose_failed_def mine_def [symmetric] slot_def [symmetric]
          row'_def s'_def)
    moreover have "local_row_advanced v s s'"
      unfolding s'_def
      by (rule local_row_advanced_update [OF fits])
        (use m(2) up in \<open>simp_all add: row'_def mine_def\<close>)
    moreover have "sint (num_changes (rows s' ! nat (View.my_rank v))) + (num_members v - (n + 1)) < 2 ^ 31"
    proof -
      have "rows s' ! nat (View.my_rank v) = row'" using m(3) by (simp add: s'_def)
      then have "sint (num_changes (rows s' ! nat (View.my_rank v))) = sint (num_changes mine) + 1"
        using up by (simp add: row'_def)
      then show ?thesis using room by (simp add: mine_def)
    qed
    ultimately show ?thesis by blast
  qed
qed

lemma propose_loop_spec:
  assumes "table_fits v s" "0 \<le> n"
    and "sint (num_changes (rows s ! nat (View.my_rank v))) + (num_members v - n) < 2 ^ 31"
  shows "\<exists>s'. propose_loop v s n found = Inr s' \<and> local_row_advanced v s s'"
  using assms
proof (induction v s n found rule: propose_loop.induct)
  case (1 v s n found)
  show ?case
  proof (cases "n < num_members v")
    case False
    then have "propose_loop v s n found = Inr s" by (simp add: propose_loop.simps)
    then show ?thesis using local_row_advanced_refl [OF "1.prems"(1)] by simp
  next
    case True
    from propose_failed_spec [OF "1.prems"(1,2) True "1.prems"(3), of found] obtain s1 found1 where
      body: "propose_failed v s n found = Inr (s1, found1)" and adv1: "local_row_advanced v s s1"
      and room1: "sint (num_changes (rows s1 ! nat (View.my_rank v))) + (num_members v - (n + 1)) < 2 ^ 31"
      by blast
    have step: "propose_loop v s n found = propose_loop v s1 (n + 1) found1"
      using True body by (simp add: propose_loop.simps [of v s n found])
    have fits1: "table_fits v s1" using adv1 unfolding local_row_advanced_def by simp
    have nn: "0 \<le> n + 1" using "1.prems"(2) by simp
    from "1.IH" [OF True body refl fits1 nn room1] obtain s' where
      "propose_loop v s1 (n + 1) found1 = Inr s'" "local_row_advanced v s1 s'"
      by blast
    then show ?thesis
      using step local_row_advanced_trans [OF adv1] by auto
  qed
qed


text \<open>
  Claim C7. On a table that fits the View and whose 32-bit counters leave room for one
  more change per member below \<^verbatim>\<open>INT_MAX\<close> (so that no increment overflows),
  \<^verbatim>\<open>merge_changes\<close> returns, and afterwards the local row's \<^verbatim>\<open>num_changes\<close> and
  \<^verbatim>\<open>num_committed\<close> are at least what they were before and at least the values of
  every row \<open>0 \<le> n < num_members\<close> that the merge loop read.
\<close>

theorem merge_changes_counters_monotone:
  assumes fits: "table_fits v (gmsSST g)" and room: "counters_leave_room v (gmsSST g)"
  shows "\<exists>g'. merge_changes v g = Inr g'
           \<and> sint (num_changes (rows (gmsSST g) ! nat (View.my_rank v)))
                 \<le> sint (num_changes (rows (gmsSST g') ! nat (View.my_rank v)))
           \<and> sint (num_committed (rows (gmsSST g) ! nat (View.my_rank v)))
                 \<le> sint (num_committed (rows (gmsSST g') ! nat (View.my_rank v)))
           \<and> (\<forall>n. 0 \<le> n \<and> n < num_members v \<longrightarrow>
                 sint (num_changes (rows (gmsSST g) ! nat n))
                   \<le> sint (num_changes (rows (gmsSST g') ! nat (View.my_rank v)))
                 \<and> sint (num_committed (rows (gmsSST g) ! nat n))
                   \<le> sint (num_committed (rows (gmsSST g') ! nat (View.my_rank v))))"
proof -
  let ?my = "nat (View.my_rank v)"
  from merge_loop_spec [OF fits, of 0] obtain merged where
    m: "merge_loop v (gmsSST g) 0 = Inr merged"
    and adv1: "local_row_advanced v (gmsSST g) merged"
    and mx: "\<forall>k. 0 \<le> k \<and> k < num_members v \<longrightarrow>
                 sint (num_changes (rows (gmsSST g) ! nat k)) \<le> sint (num_changes (rows merged ! ?my))
                 \<and> sint (num_committed (rows (gmsSST g) ! nat k)) \<le> sint (num_committed (rows merged ! ?my))"
    by auto
  have fits1: "table_fits v merged" using adv1 unfolding local_row_advanced_def by simp
  have room1: "counters_leave_room v merged"
    by (rule merge_loop_keeps_room [OF fits _ room m]) simp
  have "rows merged ! ?my \<in> set (rows merged)"
    using table_fits_bounds(1) [OF fits1] by simp
  then have room0: "sint (num_changes (rows merged ! ?my)) + (num_members v - 0) < 2 ^ 31"
    using room1 unfolding counters_leave_room_def by simp
  from propose_loop_spec [OF fits1 _ room0, of False] obtain proposed where
    p: "propose_loop v merged 0 False = Inr proposed"
    and adv2: "local_row_advanced v merged proposed"
    by auto
  define g' where "g' = g\<lparr> gmsSST := proposed,
                      calls := calls g @
                        [sst_put (put_range changes_field joiner_ips_field) proposed,
                         sst_put (put_range joiner_ips_field num_changes_field) proposed,
                         sst_put (put_range num_changes_field num_committed_field) proposed,
                         sst_put (put_range num_committed_field num_acked_field) proposed] \<rparr>"
  have res: "merge_changes v g = Inr g'"
    using m p by (simp add: merge_changes_def g'_def)
  have tbl: "gmsSST g' = proposed" by (simp add: g'_def)
  have mono2: "sint (num_changes (rows merged ! ?my)) \<le> sint (num_changes (rows proposed ! ?my))"
    "sint (num_committed (rows merged ! ?my)) \<le> sint (num_committed (rows proposed ! ?my))"
    using adv2 unfolding local_row_advanced_def by simp_all
  have mono1: "sint (num_changes (rows (gmsSST g) ! ?my)) \<le> sint (num_changes (rows merged ! ?my))"
    "sint (num_committed (rows (gmsSST g) ! ?my)) \<le> sint (num_committed (rows merged ! ?my))"
    using adv1 unfolding local_row_advanced_def by simp_all
  have own: "sint (num_changes (rows (gmsSST g) ! ?my)) \<le> sint (num_changes (rows (gmsSST g') ! ?my))"
    "sint (num_committed (rows (gmsSST g) ! ?my)) \<le> sint (num_committed (rows (gmsSST g') ! ?my))"
    unfolding tbl using mono1 mono2 by linarith+
  have all: "sint (num_changes (rows (gmsSST g) ! nat n)) \<le> sint (num_changes (rows (gmsSST g') ! ?my))
                 \<and> sint (num_committed (rows (gmsSST g) ! nat n))
                   \<le> sint (num_committed (rows (gmsSST g') ! ?my))"
    if "0 \<le> n \<and> n < num_members v" for n
  proof -
    from mx that have "sint (num_changes (rows (gmsSST g) ! nat n)) \<le> sint (num_changes (rows merged ! ?my))
                 \<and> sint (num_committed (rows (gmsSST g) ! nat n)) \<le> sint (num_committed (rows merged ! ?my))"
      by blast
    then show ?thesis unfolding tbl using mono2 by linarith
  qed
  show ?thesis using res own all by blast
qed

theorem merge_changes_counters_monotone_witness:
  "table_fits example_follower_view (gmsSST example_group_behind)
   \<and> counters_leave_room example_follower_view (gmsSST example_group_behind)
   \<and> map_sum id (\<lambda>g'. (num_changes (rows (gmsSST g') ! 1), num_committed (rows (gmsSST g') ! 1),
                          changes (rows (gmsSST g') ! 1)))
        (merge_changes example_follower_view example_group_behind)
       = Inr (2, 1, [12, 13] @ replicate 101 0)"
proof -
  have h: "table_fits example_follower_view (gmsSST example_group_behind)"
    by (simp add: table_fits_def example_follower_view_def example_group_behind_def
        example_row_ahead_def example_row_def)
  have r: "counters_leave_room example_follower_view (gmsSST example_group_behind)"
    by (simp add: counters_leave_room_def example_follower_view_def example_group_behind_def
        example_row_ahead_def example_row_def)
  have "map_sum id (\<lambda>g'. (num_changes (rows (gmsSST g') ! 1), num_committed (rows (gmsSST g') ! 1),
                          changes (rows (gmsSST g') ! 1)))
        (merge_changes example_follower_view example_group_behind)
       = Inr (2, 1, [12, 13] @ replicate 101 0)"
    using merge_changes_counters_monotone [OF h r]
    by (simp add: merge_changes_def merge_loop.simps merge_row_def propose_loop.simps
        propose_failed_def already_listed_loop.simps index_vec_def memcpy_elems_def
        example_follower_view_def example_group_behind_def example_row_ahead_def example_row_def)
  then show ?thesis using h r by simp
qed

text \<open>
  Claim C1 against the code. \<^verbatim>\<open>found\<close> is never reset inside the second loop of
  \<^verbatim>\<open>merge_changes\<close>. With members \<open>[10, 11, 12]\<close>, \<^verbatim>\<open>failed = [0, 1, 0]\<close> and
  empty change logs, member \<open>10\<close> is alive and sets \<^verbatim>\<open>found\<close>; the failed member
  \<open>11\<close> is then neither looked up nor appended: the local row ends with
  \<^verbatim>\<open>num_committed = num_changes = 0\<close>, so no slot lists it. When the failed member
  comes first (\<^verbatim>\<open>failed = [1, 0, 0]\<close>) the same code does append it.
\<close>

theorem merge_changes_skips_failure_after_live_member:
  "map (\<lambda>r. (num_committed r, num_changes r, changes r)) (rows (gmsSST example_group))
     = [(0, 0, replicate 103 0), (0, 0, replicate 103 0), (0, 0, replicate 103 0)]
   \<and> changes_size (gmsSST example_group) = 103
   \<and> View.members example_view_late_failure = [10, 11, 12]
   \<and> failed example_view_late_failure = [0, 1, 0]
   \<and> View.my_rank example_view_late_failure = 0
   \<and> map_sum id (\<lambda>g'. (num_committed (rows (gmsSST g') ! 0), num_changes (rows (gmsSST g') ! 0),
                          changes (rows (gmsSST g') ! 0)))
        (merge_changes example_view_late_failure example_group) = Inr (0, 0, replicate 103 0)
   \<and> View.members example_view = [10, 11, 12]
   \<and> failed example_view = [1, 0, 0]
   \<and> View.my_rank example_view = 1
   \<and> map_sum id (\<lambda>g'. (num_committed (rows (gmsSST g') ! 1), num_changes (rows (gmsSST g') ! 1),
                          changes (rows (gmsSST g') ! 1)))
        (merge_changes example_view example_group) = Inr (0, 1, (replicate 103 0)[0 := 10])"
  by (simp add: merge_changes_def merge_loop.simps merge_row_def propose_loop.simps
      propose_failed_def already_listed_loop.simps index_vec_def memcpy_elems_def
      size_t_of_int_def increment_def
      example_view_late_failure_def example_view_def example_group_def example_sst_def
      example_row_def)

section \<open>Pending RPC results at a view change\<close>

lemma removed_ids_loop_fold: "removed_ids_loop se ids p = fold se ids p"
  by (induction ids arbitrary: p) simp_all

lemma shard_num_loop_fold:
  assumes "subgroup_id < length (subgroup_shard_views nv)"
  shows "shard_num_loop se nv subgroup_id k p
           = Inr (fold se (concat (map SubView.departed
                                     (drop k (subgroup_shard_views nv ! subgroup_id)))) p)"
  using assms
proof (induction se nv subgroup_id k p rule: shard_num_loop.induct)
  case (1 se nv subgroup_id k p)
  define shards where "shards = subgroup_shard_views nv ! subgroup_id"
  have ix: "index_vec (subgroup_shard_views nv) (int subgroup_id) = Inr shards"
    using "1.prems" by (simp add: index_vec_def shards_def)
  show ?case
  proof (cases "k < length shards")
    case False
    then show ?thesis
      using ix by (subst shard_num_loop.simps) (simp add: shards_def [symmetric])
  next
    case True
    have step: "shard_num_loop se nv subgroup_id k p
                  = shard_num_loop se nv subgroup_id (k + 1)
                      (removed_ids_loop se (SubView.departed (shards ! k)) p)"
      using ix True by (subst shard_num_loop.simps) simp
    have dr: "drop k shards = shards ! k # drop (k + 1) shards"
      using True by (simp add: Cons_nth_drop_Suc)
    show ?thesis
      unfolding step "1.IH" [OF ix True "1.prems"]
      by (simp add: shards_def [symmetric] dr removed_ids_loop_fold)
  qed
qed

lemma pending_results_loop_spec:
  assumes "subgroup_id < length (subgroup_shard_views nv)"
  shows "pending_results_loop ar se nv subgroup_id pending
           = Inr (map (set_exception_for_departed se (subgroup_shard_views nv ! subgroup_id))
                    (filter (\<lambda>p. \<not> ar p) pending))"
proof (induction pending)
  case Nil
  show ?case by simp
next
  case (Cons p rest)
  show ?case
    using Cons.IH shard_num_loop_fold [OF assms, of se 0 p]
    by (simp add: set_exception_for_departed_def)
qed

lemma fulfilled_pending_results_loop_spec:
  assumes "\<forall>entry \<in> set fulfilled. fst entry < length (subgroup_shard_views nv)"
  shows "fulfilled_pending_results_loop ar se nv fulfilled
           = Inr (map (\<lambda>entry. (fst entry,
                      map (set_exception_for_departed se (subgroup_shard_views nv ! fst entry))
                        (filter (\<lambda>p. \<not> ar p) (snd entry)))) fulfilled)"
  using assms
proof (induction fulfilled)
  case Nil
  show ?case by simp
next
  case (Cons entry others)
  obtain subgroup_id pending where e: "entry = (subgroup_id, pending)" by (cases entry)
  have "subgroup_id < length (subgroup_shard_views nv)" using Cons.prems e by simp
  from pending_results_loop_spec [OF this, of ar se pending]
  show ?case using Cons e by simp
qed

lemma fold_keeps_not_waiting:
  assumes keep: "\<And>n m p. \<not> waiting p m \<Longrightarrow> \<not> waiting (se n p) m"
    and "\<not> waiting p m"
  shows "\<not> waiting (fold se ids p) m"
  using assms(2)
proof (induction ids arbitrary: p)
  case Nil
  then show ?case by simp
next
  case (Cons n rest)
  have "\<not> waiting (se n p) m" by (rule keep [OF Cons.prems])
  from Cons.IH [OF this] show ?case by simp
qed

lemma fold_ends_waiting:
  assumes ends: "\<And>n p. \<not> waiting (se n p) n"
    and keep: "\<And>n m p. \<not> waiting p m \<Longrightarrow> \<not> waiting (se n p) m"
    and "m \<in> set ids"
  shows "\<not> waiting (fold se ids p) m"
  using assms(3)
proof (induction ids arbitrary: p)
  case Nil
  then show ?case by simp
next
  case (Cons n rest)
  show ?case
  proof (cases "m = n")
    case True
    have "\<not> waiting (se n p) m" unfolding True by (rule ends)
    from fold_keeps_not_waiting [of waiting se, OF keep this, of rest]
    show ?thesis by simp
  next
    case False
    then have "m \<in> set rest" using Cons.prems by simp
    from Cons.IH [OF this, of "se n p"] show ?thesis by simp
  qed
qed

lemma fold_keeps_completed:
  assumes frame_c: "\<And>n m p. completed p m \<Longrightarrow> completed (se n p) m"
    and "completed p m"
  shows "completed (fold se ids p) m"
  using assms(2)
proof (induction ids arbitrary: p)
  case Nil
  then show ?case by simp
next
  case (Cons n rest)
  have "completed (se n p) m" by (rule frame_c [OF Cons.prems])
  from Cons.IH [OF this] show ?case by simp
qed

lemma fold_completes_waited:
  assumes completes: "\<And>n p. waiting p n \<Longrightarrow> completed (se n p) n"
    and frame_w: "\<And>n m p. n \<noteq> m \<Longrightarrow> waiting (se n p) m = waiting p m"
    and frame_c: "\<And>n m p. completed p m \<Longrightarrow> completed (se n p) m"
    and "m \<in> set ids" "waiting p m"
  shows "completed (fold se ids p) m"
  using assms(4,5)
proof (induction ids arbitrary: p)
  case Nil
  then show ?case by simp
next
  case (Cons n rest)
  show ?case
  proof (cases "n = m")
    case True
    have c1: "completed (se n p) m"
      using completes [of p n] Cons.prems(2) True by simp
    have "completed (fold se rest (se n p)) m"
      by (rule fold_keeps_completed [of completed se, OF frame_c c1])
    then show ?thesis by simp
  next
    case False
    then have "m \<in> set rest" using Cons.prems(1) by auto
    moreover have "waiting (se n p) m" using frame_w [OF False] Cons.prems(2) by simp
    ultimately have "completed (fold se rest (se n p)) m" by (rule Cons.IH)
    then show ?thesis by simp
  qed
qed

text \<open>
  Claim C2. Let every subgroup id with a list in \<^verbatim>\<open>fulfilled_pending_results\<close> name a
  subgroup of the new view. \<^verbatim>\<open>PendingBase\<close> is not among the sources; of its setter
  the theorem asks what the spec says of \<open>node_removed\<close>, the error for a target that
  left the view: called for a node the result waits on, it completes the result with
  \<open>node_removed\<close> for that node; after it the result no longer waits on that node; it
  touches no other wait and takes back no completion. A result still queued in
  \<^verbatim>\<open>pending_results_to_fulfill\<close> has no targets yet (\<^verbatim>\<open>rpc_message_handler\<close> calls
  \<^verbatim>\<open>fulfill_map\<close> as it moves the result to \<^verbatim>\<open>fulfilled_pending_results\<close>) and
  waits on no node. Then \<^verbatim>\<open>new_view_callback\<close> returns, and every result of
  \<^verbatim>\<open>fulfilled_pending_results\<close> that has not received all its responses is kept, has
  had the setter called for every node in the \<^verbatim>\<open>departed\<close> list of every shard of its
  subgroup, and is completed with \<open>node_removed\<close> for each of those nodes it was
  waiting on; afterwards no pending result the manager tracks, in either collection,
  waits on a departed node of its subgroup.
\<close>

theorem new_view_callback_completes_departed:
  assumes known: "\<forall>entry \<in> set (fulfilled_pending_results mgr).
                    fst entry < length (subgroup_shard_views new_view)"
    and completes: "\<And>n p. waiting p n \<Longrightarrow> completed (set_exception_for_removed_node n p) n"
    and ends: "\<And>n p. \<not> waiting (set_exception_for_removed_node n p) n"
    and frame_w: "\<And>n m p. n \<noteq> m \<Longrightarrow>
                    waiting (set_exception_for_removed_node n p) m = waiting p m"
    and frame_c: "\<And>n m p. completed p m \<Longrightarrow> completed (set_exception_for_removed_node n p) m"
    and queued: "\<forall>entry \<in> set (pending_results_to_fulfill mgr). \<forall>p \<in> set (snd entry).
                   \<forall>n. \<not> waiting p n"
  shows "\<exists>mgr'. new_view_callback all_responded set_exception_for_removed_node mgr new_view = Inr mgr'
           \<and> pending_results_to_fulfill mgr' = pending_results_to_fulfill mgr
           \<and> fulfilled_pending_results mgr'
               = map (\<lambda>entry. (fst entry,
                        map (set_exception_for_departed set_exception_for_removed_node
                               (subgroup_shard_views new_view ! fst entry))
                          (filter (\<lambda>p. \<not> all_responded p) (snd entry))))
                   (fulfilled_pending_results mgr)
           \<and> (\<forall>entry \<in> set (fulfilled_pending_results mgr). \<forall>p \<in> set (snd entry).
                 \<not> all_responded p \<longrightarrow>
                 (\<forall>shard \<in> set (subgroup_shard_views new_view ! fst entry).
                    \<forall>removed_id \<in> set (SubView.departed shard).
                      waiting p removed_id \<longrightarrow>
                      completed (set_exception_for_departed set_exception_for_removed_node
                                   (subgroup_shard_views new_view ! fst entry) p) removed_id))
           \<and> (\<forall>entry \<in> set (fulfilled_pending_results mgr'). \<forall>p \<in> set (snd entry).
                 \<forall>shard \<in> set (subgroup_shard_views new_view ! fst entry).
                   \<forall>removed_id \<in> set (SubView.departed shard). \<not> waiting p removed_id)
           \<and> (\<forall>entry \<in> set (pending_results_to_fulfill mgr'). \<forall>p \<in> set (snd entry).
                 \<forall>removed_id. \<not> waiting p removed_id)"
proof -
  let ?se = set_exception_for_removed_node
  have keep: "\<not> waiting (?se n p) m" if "\<not> waiting p m" for n m p
  proof (cases "n = m")
    case True
    show ?thesis unfolding True by (rule ends)
  next
    case False
    show ?thesis using frame_w [OF False] that by simp
  qed
  define fulfilled' where "fulfilled' =
     map (\<lambda>entry. (fst entry,
            map (set_exception_for_departed ?se (subgroup_shard_views new_view ! fst entry))
              (filter (\<lambda>p. \<not> all_responded p) (snd entry))))
         (fulfilled_pending_results mgr)"
  define mgr' where "mgr' = mgr\<lparr> connections_members := View.members new_view,
                                  fulfilled_pending_results := fulfilled' \<rparr>"
  have res: "new_view_callback all_responded ?se mgr new_view = Inr mgr'"
    using fulfilled_pending_results_loop_spec [OF known, of all_responded ?se]
    by (simp add: new_view_callback_def mgr'_def fulfilled'_def)
  have f: "fulfilled_pending_results mgr' = fulfilled'" by (simp add: mgr'_def)
  have t: "pending_results_to_fulfill mgr' = pending_results_to_fulfill mgr"
    by (simp add: mgr'_def)
  have "\<not> waiting p removed_id"
    if "entry \<in> set fulfilled'" "p \<in> set (snd entry)"
      "shard \<in> set (subgroup_shard_views new_view ! fst entry)"
      "removed_id \<in> set (SubView.departed shard)" for entry p shard removed_id
  proof -
    from that(1) obtain old where old: "old \<in> set (fulfilled_pending_results mgr)"
      and e: "entry = (fst old,
            map (set_exception_for_departed ?se (subgroup_shard_views new_view ! fst old))
              (filter (\<lambda>p. \<not> all_responded p) (snd old)))"
      unfolding fulfilled'_def by auto
    have sg: "fst entry = fst old" using e by simp
    from that(2) e obtain q where
      p: "p = set_exception_for_departed ?se (subgroup_shard_views new_view ! fst old) q"
      by auto
    have "removed_id \<in> set (concat (map SubView.departed
                                  (subgroup_shard_views new_view ! fst old)))"
      using that(3,4) sg by auto
    from fold_ends_waiting [of waiting ?se, OF ends keep this]
    show ?thesis unfolding p set_exception_for_departed_def .
  qed
  then have none: "\<forall>entry \<in> set (fulfilled_pending_results mgr'). \<forall>p \<in> set (snd entry).
                 \<forall>shard \<in> set (subgroup_shard_views new_view ! fst entry).
                   \<forall>removed_id \<in> set (SubView.departed shard). \<not> waiting p removed_id"
    unfolding f by blast
  have "completed (set_exception_for_departed ?se
                     (subgroup_shard_views new_view ! fst entry) p) removed_id"
    if "shard \<in> set (subgroup_shard_views new_view ! fst entry)"
      "removed_id \<in> set (SubView.departed shard)" "waiting p removed_id"
    for entry :: "subgroup_id_t \<times> 'a list" and p shard removed_id
  proof -
    have "removed_id \<in> set (concat (map SubView.departed
                                  (subgroup_shard_views new_view ! fst entry)))"
      using that(1,2) by auto
    from fold_completes_waited [of waiting completed ?se, OF completes frame_w frame_c this that(3)]
    show ?thesis unfolding set_exception_for_departed_def .
  qed
  then have finished: "\<forall>entry \<in> set (fulfilled_pending_results mgr). \<forall>p \<in> set (snd entry).
                 \<not> all_responded p \<longrightarrow>
                 (\<forall>shard \<in> set (subgroup_shard_views new_view ! fst entry).
                    \<forall>removed_id \<in> set (SubView.departed shard).
                      waiting p removed_id \<longrightarrow>
                      completed (set_exception_for_departed ?se
                                   (subgroup_shard_views new_view ! fst entry) p) removed_id)"
    by blast
  have still: "\<forall>entry \<in> set (pending_results_to_fulfill mgr'). \<forall>p \<in> set (snd entry).
                 \<forall>removed_id. \<not> waiting p removed_id"
    unfolding t by (rule queued)
  show ?thesis
  proof (intro exI conjI)
    show "new_view_callback all_responded ?se mgr new_view = Inr mgr'" by (rule res)
    show "pending_results_to_fulfill mgr' = pending_results_to_fulfill mgr" by (rule t)
    show "fulfilled_pending_results mgr'
               = map (\<lambda>entry. (fst entry,
                        map (set_exception_for_departed ?se
                               (subgroup_shard_views new_view ! fst entry))
                          (filter (\<lambda>p. \<not> all_responded p) (snd entry))))
                   (fulfilled_pending_results mgr)"
      unfolding f fulfilled'_def ..
  qed (rule finished none still)+
qed

lemma PendingResults_setter_completes:
  "awaiting p n \<Longrightarrow>
   completed_with_node_removed (PendingResults_set_exception_for_removed_node n p) n"
  by (simp add: PendingResults_set_exception_for_removed_node_def
      completed_with_node_removed_def)

lemma PendingResults_setter_ends_waiting:
  "\<not> awaiting (PendingResults_set_exception_for_removed_node n p) n"
  by (simp add: PendingResults_set_exception_for_removed_node_def awaiting_def)

lemma PendingResults_setter_other_waits:
  "n \<noteq> m \<Longrightarrow> awaiting (PendingResults_set_exception_for_removed_node n p) m = awaiting p m"
  by (auto simp: PendingResults_set_exception_for_removed_node_def awaiting_def)

lemma PendingResults_setter_keeps_completed:
  "completed_with_node_removed p m \<Longrightarrow>
   completed_with_node_removed (PendingResults_set_exception_for_removed_node n p) m"
  by (simp add: PendingResults_set_exception_for_removed_node_def
      completed_with_node_removed_def)

theorem new_view_callback_completes_departed_witness:
  "new_view_callback PendingResults_all_responded PendingResults_set_exception_for_removed_node
      example_rpc_manager example_new_view
     = Inr \<lparr> connections_members = [10, 11],
             pending_results_to_fulfill = [(0, [example_pending_unsent])],
             fulfilled_pending_results =
               [(0, [\<lparr> map_fulfilled = True, dest_nodes = [10, 11, 12],
                        responded_nodes = [12, 10],
                        replies = [10 \<mapsto> value_reply, 12 \<mapsto> node_removed] \<rparr>])] \<rparr>"
proof -
  have known: "\<forall>entry \<in> set (fulfilled_pending_results example_rpc_manager).
                    fst entry < length (subgroup_shard_views example_new_view)"
    by (simp add: example_rpc_manager_def example_new_view_def)
  have queued: "\<forall>entry \<in> set (pending_results_to_fulfill example_rpc_manager).
                  \<forall>p \<in> set (snd entry). \<forall>n. \<not> awaiting p n"
    by (simp add: example_rpc_manager_def example_pending_unsent_def awaiting_def)
  from new_view_callback_completes_departed [of example_rpc_manager example_new_view awaiting
      completed_with_node_removed PendingResults_set_exception_for_removed_node
      PendingResults_all_responded,
      OF known PendingResults_setter_completes PendingResults_setter_ends_waiting
        PendingResults_setter_other_waits PendingResults_setter_keeps_completed queued]
  obtain mgr' where
    r: "new_view_callback PendingResults_all_responded
          PendingResults_set_exception_for_removed_node example_rpc_manager example_new_view
        = Inr mgr'"
    and t: "pending_results_to_fulfill mgr' = pending_results_to_fulfill example_rpc_manager"
    and f: "fulfilled_pending_results mgr'
               = map (\<lambda>entry. (fst entry,
                        map (set_exception_for_departed PendingResults_set_exception_for_removed_node
                               (subgroup_shard_views example_new_view ! fst entry))
                          (filter (\<lambda>p. \<not> PendingResults_all_responded p) (snd entry))))
                   (fulfilled_pending_results example_rpc_manager)"
    by blast
  have c: "connections_members mgr' = [10, 11]"
    using r by (auto simp: new_view_callback_def example_new_view_def split: sum.splits)
  have f': "fulfilled_pending_results mgr'
              = [(0, [\<lparr> map_fulfilled = True, dest_nodes = [10, 11, 12],
                        responded_nodes = [12, 10],
                        replies = [10 \<mapsto> value_reply, 12 \<mapsto> node_removed] \<rparr>])]"
    unfolding f
    by (simp add: example_rpc_manager_def example_new_view_def example_pending_done_def
        example_pending_waiting_def PendingResults_all_responded_def
        set_exception_for_departed_def PendingResults_set_exception_for_removed_node_def
        awaiting_def SubView_ctor_def)
  have t': "pending_results_to_fulfill mgr' = [(0, [example_pending_unsent])]"
    unfolding t by (simp add: example_rpc_manager_def)
  have "mgr' = \<lparr> connections_members = [10, 11],
             pending_results_to_fulfill = [(0, [example_pending_unsent])],
             fulfilled_pending_results =
               [(0, [\<lparr> map_fulfilled = True, dest_nodes = [10, 11, 12],
                        responded_nodes = [12, 10],
                        replies = [10 \<mapsto> value_reply, 12 \<mapsto> node_removed] \<rparr>])] \<rparr>"
    using c f' t' by (cases mgr') simp
  then show ?thesis using r by simp
qed

end
